theory Spec2Isabelle
  imports Main "HOL-Library.Multiset"
begin

section \<open>Window options\<close>

text \<open>
  \<^verbatim>\<open>BrowserWindowConstructorOptions\<close> (Electron) and its extension
  \<^verbatim>\<open>TheiaBrowserWindowOptions\<close>. Every property of the TypeScript interfaces is
  optional; a property that is absent (or \<^verbatim>\<open>undefined\<close>) is \<open>None\<close>. The nested
  \<^verbatim>\<open>webPreferences\<close> object is a constant of \<^verbatim>\<open>getDefaultOptions\<close> that no
  function below reads; it is left out. Coordinates are the integers Electron reports
  for window and display bounds. The fields \<^verbatim>\<open>x\<close>, \<^verbatim>\<open>y\<close> and \<^verbatim>\<open>show\<close> are
  written \<open>opt_x\<close>, \<open>opt_y\<close> and \<open>opt_show\<close>.
\<close>

record BrowserWindowConstructorOptions =
  opt_x :: "int option"
  opt_y :: "int option"
  width :: "int option"
  height :: "int option"
  frame :: "bool option"
  opt_show :: "bool option"
  title :: "string option"
  backgroundColor :: "string option"
  minWidth :: "int option"
  minHeight :: "int option"

record TheiaBrowserWindowOptions = BrowserWindowConstructorOptions +
  isMaximized :: "bool option"
  isFullScreen :: "bool option"
  screenLayout :: "string option"
  preventAutomaticShow :: "bool option"

text \<open>The bounds of a window or of a display (Electron's \<^verbatim>\<open>Rectangle\<close>).\<close>

record Rectangle =
  rx :: int
  ry :: int
  rwidth :: int
  rheight :: int

text \<open>The empty object literal \<^verbatim>\<open>{}\<close>.\<close>

definition emptyOptions :: BrowserWindowConstructorOptions where
  "emptyOptions = \<lparr>opt_x = None, opt_y = None, width = None, height = None, frame = None,
     opt_show = None, title = None, backgroundColor = None, minWidth = None, minHeight = None\<rparr>"

definition emptyTheiaOptions :: TheiaBrowserWindowOptions where
  "emptyTheiaOptions = \<lparr>opt_x = None, opt_y = None, width = None, height = None, frame = None,
     opt_show = None, title = None, backgroundColor = None, minWidth = None, minHeight = None,
     isMaximized = None, isFullScreen = None, screenLayout = None, preventAutomaticShow = None\<rparr>"

text \<open>
  Object spread \<^verbatim>\<open>{...a, ...b}\<close>: each property of \<open>b\<close> that is present replaces the
  one of \<open>a\<close>. \<open>later_wins vb va\<close> is the value of one property.
\<close>

definition later_wins :: "'a option \<Rightarrow> 'a option \<Rightarrow> 'a option" where
  "later_wins vb va = (case vb of Some v \<Rightarrow> Some v | None \<Rightarrow> va)"

definition spread_base ::
  "'a BrowserWindowConstructorOptions_scheme \<Rightarrow> 'b BrowserWindowConstructorOptions_scheme
     \<Rightarrow> 'a BrowserWindowConstructorOptions_scheme" where
  "spread_base a b = a\<lparr>
     opt_x := later_wins (opt_x b) (opt_x a),
     opt_y := later_wins (opt_y b) (opt_y a),
     width := later_wins (width b) (width a),
     height := later_wins (height b) (height a),
     frame := later_wins (frame b) (frame a),
     opt_show := later_wins (opt_show b) (opt_show a),
     title := later_wins (title b) (title a),
     backgroundColor := later_wins (backgroundColor b) (backgroundColor a),
     minWidth := later_wins (minWidth b) (minWidth a),
     minHeight := later_wins (minHeight b) (minHeight a)\<rparr>"

definition spread :: "TheiaBrowserWindowOptions \<Rightarrow> TheiaBrowserWindowOptions \<Rightarrow> TheiaBrowserWindowOptions" where
  "spread a b = (spread_base a b)\<lparr>
     isMaximized := later_wins (isMaximized b) (isMaximized a),
     isFullScreen := later_wins (isFullScreen b) (isFullScreen a),
     screenLayout := later_wins (screenLayout b) (screenLayout a),
     preventAutomaticShow := later_wins (preventAutomaticShow b) (preventAutomaticShow a)\<rparr>"

section \<open>Chrome mode: \<^verbatim>\<open>getTitleBarStyle\<close>\<close>

datatype titleBarStyle = Native | Custom

text \<open>
  What \<^verbatim>\<open>getTitleBarStyle\<close> reads from its surroundings: the environment variable
  \<^verbatim>\<open>THEIA_ELECTRON_DISABLE_NATIVE_ELEMENTS\<close> (\<open>None\<close> when it is not set), the
  platform flags, the \<^verbatim>\<open>windowstate\<close> entry of the electron store, and the value of
  \<^verbatim>\<open>config.preferences['window.titleBarStyle']\<close> (\<open>None\<close> when there are no
  preferences or no such key).
\<close>

record titleBarInputs =
  env_DISABLE_NATIVE_ELEMENTS :: "string option"
  isOSX :: bool
  isWindows :: bool
  stored_windowstate :: "TheiaBrowserWindowOptions option"
  pref_titleBarStyle :: "string option"

definition storedFrame :: "TheiaBrowserWindowOptions option \<Rightarrow> bool option" where
  "storedFrame ws = (case ws of None \<Rightarrow> None | Some s \<Rightarrow> frame s)"

definition getTitleBarStyle :: "titleBarInputs \<Rightarrow> titleBarStyle" where
  "getTitleBarStyle i =
     (if env_DISABLE_NATIVE_ELEMENTS i = Some ''1'' then Custom
      else if isOSX i then Native
      else (case storedFrame (stored_windowstate i) of
              Some f \<Rightarrow> (if f then Native else Custom)
            | None \<Rightarrow>
               (if pref_titleBarStyle i = Some ''native'' then Native
                else if pref_titleBarStyle i = Some ''custom'' then Custom
                else if isWindows i then Custom else Native)))"

text \<open>
  The specification's reading: an ordered list of override sources, each of which either
  gives a style or is undefined; the first defined one is returned.
\<close>

primrec first_defined :: "'a option list \<Rightarrow> 'a option" where
  "first_defined [] = None"
| "first_defined (s # ss) = (case s of Some v \<Rightarrow> Some v | None \<Rightarrow> first_defined ss)"

definition source_environment :: "titleBarInputs \<Rightarrow> titleBarStyle option" where
  "source_environment i = (if env_DISABLE_NATIVE_ELEMENTS i = Some ''1'' then Some Custom else None)"

definition source_macos :: "titleBarInputs \<Rightarrow> titleBarStyle option" where
  "source_macos i = (if isOSX i then Some Native else None)"

definition source_persisted :: "titleBarInputs \<Rightarrow> titleBarStyle option" where
  "source_persisted i = map_option (\<lambda>f. if f then Native else Custom) (storedFrame (stored_windowstate i))"

definition source_preference :: "titleBarInputs \<Rightarrow> titleBarStyle option" where
  "source_preference i =
     (if pref_titleBarStyle i = Some ''native'' then Some Native
      else if pref_titleBarStyle i = Some ''custom'' then Some Custom else None)"

definition source_platform_rest :: "titleBarInputs \<Rightarrow> titleBarStyle option" where
  "source_platform_rest i = Some (if isWindows i then Custom else Native)"

definition titleBarStyle_spec :: "titleBarInputs \<Rightarrow> titleBarStyle option" where
  "titleBarStyle_spec i = first_defined
     [source_environment i, source_macos i, source_persisted i, source_preference i,
      source_platform_rest i]"

section \<open>Window state store: defaults and persisted geometry\<close>

text \<open>
  What the geometry functions read from outside the class: the application name and the
  optional \<^verbatim>\<open>electron.windowOptions\<close> of the configuration, its
  \<^verbatim>\<open>electron.showWindowEarly\<close> and \<^verbatim>\<open>electron.splashScreenOptions\<close> (of which
  the content path and the two durations are kept), the environment variable
  \<^verbatim>\<open>THEIA_ELECTRON_NO_EARLY_WINDOW\<close>, the colour that
  \<^verbatim>\<open>DefaultTheme.defaultBackgroundColor\<close> returns for the current theme, the bounds of
  the display nearest the cursor, and the string that \<^verbatim>\<open>getCurrentScreenLayout\<close>
  returns for the attached displays.
\<close>

record SplashScreenOptions =
  content :: "string option"
  minDuration :: "nat option"
  maxDuration :: "nat option"

record environment =
  applicationName :: string
  windowOptions :: "BrowserWindowConstructorOptions option"
  showWindowEarly :: bool
  splashScreenOptions :: "SplashScreenOptions option"
  env_NO_EARLY_WINDOW :: "string option"
  themeBackgroundColor :: string
  displayNearestCursor :: Rectangle
  currentScreenLayout :: string

text \<open>\<^verbatim>\<open>this.config.electron?.windowOptions || {}\<close>\<close>

definition configuredWindowOptions :: "environment \<Rightarrow> BrowserWindowConstructorOptions" where
  "configuredWindowOptions env = (case windowOptions env of Some w \<Rightarrow> w | None \<Rightarrow> emptyOptions)"

definition getDefaultOptions :: "environment \<Rightarrow> TheiaBrowserWindowOptions" where
  "getDefaultOptions env =
     spread_base
       (emptyTheiaOptions\<lparr>
          opt_show := Some False,
          title := Some (applicationName env),
          backgroundColor := Some (themeBackgroundColor env),
          minWidth := Some 200,
          minHeight := Some 120\<rparr>)
       (configuredWindowOptions env)"

text \<open>
  \<^verbatim>\<open>Math.round(v * (2 / 3))\<close> for an integer \<open>v\<close> of the size of a display is the
  integer nearest to \<open>2v/3\<close>, which is never half way between two integers.
  \<^verbatim>\<open>Math.round(b + d / 2)\<close> for integers \<open>b\<close>, \<open>d\<close> rounds a half upwards.
\<close>

definition round_two_thirds :: "int \<Rightarrow> int" where
  "round_two_thirds v = (2 * v + 1) div 3"

definition round_add_half :: "int \<Rightarrow> int \<Rightarrow> int" where
  "round_add_half b d = b + (d + 1) div 2"

definition getDefaultTheiaWindowBounds :: "environment \<Rightarrow> TheiaBrowserWindowOptions" where
  "getDefaultTheiaWindowBounds env =
     (let bounds = displayNearestCursor env;
          height' = round_two_thirds (rheight bounds);
          width' = round_two_thirds (rwidth bounds);
          y' = round_add_half (ry bounds) (rheight bounds - height');
          x' = round_add_half (rx bounds) (rwidth bounds - width')
      in emptyTheiaOptions\<lparr>width := Some width', height := Some height',
           opt_x := Some x', opt_y := Some y'\<rparr>)"

definition getDefaultTheiaWindowOptions :: "bool \<Rightarrow> environment \<Rightarrow> TheiaBrowserWindowOptions" where
  "getDefaultTheiaWindowOptions useNativeWindowFrame env =
     spread
       (spread
          (emptyTheiaOptions\<lparr>frame := Some useNativeWindowFrame,
             isFullScreen := Some False, isMaximized := Some False\<rparr>)
          (getDefaultTheiaWindowBounds env))
       (getDefaultOptions env)"

text \<open>
  \<^verbatim>\<open>getLastWindowOptions\<close>; \<open>store\<close> is the \<^verbatim>\<open>windowstate\<close> entry of the electron
  store (\<open>None\<close> when nothing was saved).
\<close>

definition getLastWindowOptions ::
  "bool \<Rightarrow> TheiaBrowserWindowOptions option \<Rightarrow> environment \<Rightarrow> TheiaBrowserWindowOptions" where
  "getLastWindowOptions useNativeWindowFrame store env =
     (let windowState =
            (case store of
               Some previousWindowState \<Rightarrow>
                 (if screenLayout previousWindowState = Some (currentScreenLayout env)
                  then previousWindowState
                  else getDefaultTheiaWindowOptions useNativeWindowFrame env)
             | None \<Rightarrow> getDefaultTheiaWindowOptions useNativeWindowFrame env)
      in spread
           (spread (emptyTheiaOptions\<lparr>frame := Some useNativeWindowFrame\<rparr>) (getDefaultOptions env))
           windowState)"

section \<open>Overlap avoidance\<close>

text \<open>
  A property used as a condition is truthy when it is present and \<^verbatim>\<open>true\<close>.
  \<^verbatim>\<open>options.x! + 30\<close> on an absent \<^verbatim>\<open>x\<close> is \<^verbatim>\<open>NaN\<close>, which like
  \<^verbatim>\<open>undefined\<close> is never \<^verbatim>\<open>===\<close> to the coordinate of a window: both are \<open>None\<close>.
\<close>

definition truthy :: "bool option \<Rightarrow> bool" where
  "truthy v = (v = Some True)"

definition collides :: "Rectangle list \<Rightarrow> TheiaBrowserWindowOptions \<Rightarrow> bool" where
  "collides existingWindowsBounds options =
     list_ex (\<lambda>window. Some (rx window) = opt_x options \<or> Some (ry window) = opt_y options)
       existingWindowsBounds"

definition avoidOverlap_body ::
  "bool \<Rightarrow> environment \<Rightarrow> TheiaBrowserWindowOptions \<Rightarrow> TheiaBrowserWindowOptions" where
  "avoidOverlap_body useNativeWindowFrame env options =
     (let options1 =
            (if truthy (isMaximized options) \<or> truthy (isFullScreen options)
             then getDefaultTheiaWindowOptions useNativeWindowFrame env else options)
      in options1\<lparr>opt_x := map_option (\<lambda>v. v + 30) (opt_x options1),
                   opt_y := map_option (\<lambda>v. v + 30) (opt_y options1)\<rparr>)"

text \<open>
  The measure that decreases along the loop: the number of windows whose \<open>x\<close> is not
  below the candidate's plus the number of those whose \<open>y\<close> is not below it; a
  maximized or full-screen candidate, which the first round replaces, counts more than
  any other.
\<close>

definition ahead :: "(Rectangle \<Rightarrow> int) \<Rightarrow> Rectangle list \<Rightarrow> int option \<Rightarrow> nat" where
  "ahead f ws v = (case v of None \<Rightarrow> 0 | Some c \<Rightarrow> length (filter (\<lambda>w. c \<le> f w) ws))"

definition overlap_measure :: "Rectangle list \<Rightarrow> TheiaBrowserWindowOptions \<Rightarrow> nat" where
  "overlap_measure ws options =
     (if truthy (isMaximized options) \<or> truthy (isFullScreen options)
      then 2 * length ws + 1
      else ahead rx ws (opt_x options) + ahead ry ws (opt_y options))"

text \<open>
  The \<^verbatim>\<open>while\<close> loop of \<^verbatim>\<open>avoidOverlap\<close>, and the number of times its body runs.
\<close>

function avoidOverlap_loop ::
  "bool \<Rightarrow> environment \<Rightarrow> Rectangle list \<Rightarrow> TheiaBrowserWindowOptions \<Rightarrow> TheiaBrowserWindowOptions" where
  "avoidOverlap_loop n env ws options =
     (if collides ws options then avoidOverlap_loop n env ws (avoidOverlap_body n env options)
      else options)"
  by pat_completeness auto
termination
proof (relation "measure (\<lambda>(n, env, ws, options). overlap_measure ws options)")
  show "wf (measure (\<lambda>(n, env, ws, options). overlap_measure ws options))"
    by simp
next
  fix n :: bool and env :: environment and ws :: "Rectangle list"
    and options :: TheiaBrowserWindowOptions
  assume c: "collides ws options"
  have le: "ahead f ws (map_option (\<lambda>v. v + 30) v) \<le> ahead f ws v" for f v
  proof (cases v)
    case None
    then show ?thesis by (simp add: ahead_def)
  next
    case (Some a)
    have "length (filter (\<lambda>w. a + 30 \<le> f w) xs) \<le> length (filter (\<lambda>w. a \<le> f w) xs)" for xs
      by (induction xs) auto
    then show ?thesis using Some by (simp add: ahead_def)
  qed
  have less: "ahead f ws (map_option (\<lambda>v. v + 30) (Some (f w))) < ahead f ws (Some (f w))"
    if "w \<in> set ws" for f w
  proof -
    have mono: "length (filter (\<lambda>u. f w + 30 \<le> f u) xs) \<le> length (filter (\<lambda>u. f w \<le> f u) xs)" for xs
      by (induction xs) auto
    have "w \<in> set xs \<Longrightarrow>
        length (filter (\<lambda>u. f w + 30 \<le> f u) xs) < length (filter (\<lambda>u. f w \<le> f u) xs)" for xs
    proof (induction xs)
      case Nil
      then show ?case by simp
    next
      case (Cons x xs)
      show ?case
      proof (cases "x = w")
        case True
        then show ?thesis using mono[of xs] by simp
      next
        case False
        then have "length (filter (\<lambda>u. f w + 30 \<le> f u) xs) < length (filter (\<lambda>u. f w \<le> f u) xs)"
          using Cons by simp
        then show ?thesis by auto
      qed
    qed
    then show ?thesis using that by (simp add: ahead_def)
  qed
  have le_len: "ahead f ws v \<le> length ws" for f v
    by (cases v) (simp_all add: ahead_def)
  show "((n, env, ws, avoidOverlap_body n env options), n, env, ws, options)
      \<in> measure (\<lambda>(n, env, ws, options). overlap_measure ws options)"
  proof (cases "truthy (isMaximized options) \<or> truthy (isFullScreen options)")
    case True
    let ?d = "getDefaultTheiaWindowOptions n env"
    have d: "isMaximized ?d = Some False" "isFullScreen ?d = Some False"
      by (simp_all add: getDefaultTheiaWindowOptions_def spread_def spread_base_def
          later_wins_def getDefaultOptions_def getDefaultTheiaWindowBounds_def
          emptyTheiaOptions_def Let_def)
    have "overlap_measure ws (avoidOverlap_body n env options)
        = ahead rx ws (map_option (\<lambda>v. v + 30) (opt_x ?d))
          + ahead ry ws (map_option (\<lambda>v. v + 30) (opt_y ?d))"
      using True by (simp add: overlap_measure_def avoidOverlap_body_def truthy_def d Let_def)
    also have "\<dots> \<le> length ws + length ws"
      by (intro add_mono le_len)
    finally show ?thesis
      using True by (simp add: overlap_measure_def)
  next
    case False
    from c obtain w where w: "w \<in> set ws"
        "Some (rx w) = opt_x options \<or> Some (ry w) = opt_y options"
      by (auto simp: collides_def list_ex_iff)
    have body: "avoidOverlap_body n env options =
        options\<lparr>opt_x := map_option (\<lambda>v. v + 30) (opt_x options),
                 opt_y := map_option (\<lambda>v. v + 30) (opt_y options)\<rparr>"
      using False by (simp add: avoidOverlap_body_def Let_def)
    have "ahead rx ws (map_option (\<lambda>v. v + 30) (opt_x options)) < ahead rx ws (opt_x options)
        \<or> ahead ry ws (map_option (\<lambda>v. v + 30) (opt_y options)) < ahead ry ws (opt_y options)"
      using w less[of w rx] less[of w ry] by metis
    then show ?thesis
      using le[of rx "opt_x options"] le[of ry "opt_y options"] False
      by (auto simp: overlap_measure_def body truthy_def)
  qed
qed

function (domintros) avoidOverlap_iterations ::
  "bool \<Rightarrow> environment \<Rightarrow> Rectangle list \<Rightarrow> TheiaBrowserWindowOptions \<Rightarrow> nat" where
  "avoidOverlap_iterations n env ws options =
     (if collides ws options then Suc (avoidOverlap_iterations n env ws (avoidOverlap_body n env options))
      else 0)"
  by pat_completeness auto
termination
proof -
  have "avoidOverlap_iterations_dom (n, env, ws, options)" for n env ws options
    by (induction n env ws options rule: avoidOverlap_loop.induct)
      (auto intro: avoidOverlap_iterations.domintros)
  then show ?thesis by auto
qed

declare avoidOverlap_loop.simps [simp del]
declare avoidOverlap_iterations.simps [simp del]

definition avoidOverlap ::
  "bool \<Rightarrow> environment \<Rightarrow> Rectangle list \<Rightarrow> TheiaBrowserWindowOptions \<Rightarrow> TheiaBrowserWindowOptions" where
  "avoidOverlap n env existingWindowsBounds options =
     (if length existingWindowsBounds > 0 then avoidOverlap_loop n env existingWindowsBounds options
      else options)"

section \<open>The window registry\<close>

text \<open>
  The fields of \<^verbatim>\<open>ElectronMainApplication\<close> that the functions below read or write.
  A window is known by the id of its web contents; the registry keeps for each id the
  options its window was built from. \<open>electronStore\<close> is the \<^verbatim>\<open>windowstate\<close> entry
  of the store, \<open>backendPort\<close> is \<open>None\<close> until the backend has reported its port.
  \<open>calls\<close> records, oldest first, the calls made on windows and on the Electron
  \<^verbatim>\<open>app\<close> object.
\<close>

datatype fragment = DEFAULT_WINDOW_HASH | WorkspacePath string

datatype call =
    LoadURL nat fragment
  | ShowWindow nat
  | SendWindowEvent nat string
  | AppQuit

record ElectronMainApplication =
  useNativeWindowFrame :: bool
  customBackgroundColor :: "string option"
  electronStore :: "TheiaBrowserWindowOptions option"
  didUseNativeWindowFrameOnStart :: "nat \<rightharpoonup> bool"
  windows :: "nat \<rightharpoonup> TheiaBrowserWindowOptions"
  activeWindowStack :: "nat list"
  restarting :: bool
  initialWindow :: "nat option"
  backendPort :: "nat option"
  calls :: "call list"

text \<open>
  What Electron supplies to one call of \<^verbatim>\<open>createWindow\<close>: the bounds of all open
  browser windows, and the web-contents id of the window the factory builds.
\<close>

record electron_inputs =
  existingWindowsBounds :: "Rectangle list"
  newId :: nat

definition createWindow ::
  "environment \<Rightarrow> electron_inputs \<Rightarrow> TheiaBrowserWindowOptions \<Rightarrow> ElectronMainApplication
     \<Rightarrow> nat \<times> ElectronMainApplication" where
  "createWindow env inp asyncOptions app =
     (let options = avoidOverlap (useNativeWindowFrame app) env (existingWindowsBounds inp) asyncOptions;
          wid = newId inp
      in (wid, app\<lparr>
            activeWindowStack := activeWindowStack app @ [wid],
            windows := (windows app)(wid \<mapsto> options),
            didUseNativeWindowFrameOnStart :=
              (didUseNativeWindowFrameOnStart app)(wid \<mapsto> useNativeWindowFrame app)\<rparr>))"

text \<open>The listeners that \<^verbatim>\<open>createWindow\<close> registers on the window.\<close>

definition onDidClose :: "nat \<Rightarrow> ElectronMainApplication \<Rightarrow> ElectronMainApplication" where
  "onDidClose wid app =
     app\<lparr>activeWindowStack := remove1 wid (activeWindowStack app),
         windows := (windows app)(wid := None)\<rparr>"

definition onFocus :: "nat \<Rightarrow> ElectronMainApplication \<Rightarrow> ElectronMainApplication" where
  "onFocus wid app =
     app\<lparr>activeWindowStack := wid # remove1 wid (activeWindowStack app),
         calls := calls app @ [SendWindowEvent wid ''focus'']\<rparr>"




definition reuseOrCreateWindow ::
  "environment \<Rightarrow> electron_inputs \<Rightarrow> TheiaBrowserWindowOptions \<Rightarrow> ElectronMainApplication
     \<Rightarrow> nat \<times> ElectronMainApplication" where
  "reuseOrCreateWindow env inp asyncOptions app =
     (case initialWindow app of
        None \<Rightarrow> createWindow env inp asyncOptions app
      | Some window \<Rightarrow> (window, app\<lparr>initialWindow := None\<rparr>))"

text \<open>
  \<^verbatim>\<open>createWindowUri\<close> waits for the backend port, and the URL is loaded once both the
  URI and the window are there: while the port is not known the call that opens the
  window does not return, which is the result \<open>None\<close>. Of the URL only the fragment is
  kept.
\<close>

definition loadWhenPortKnown ::
  "nat \<Rightarrow> fragment \<Rightarrow> ElectronMainApplication \<Rightarrow> nat option \<times> ElectronMainApplication" where
  "loadWhenPortKnown window frag app =
     (case backendPort app of
        None \<Rightarrow> (None, app)
      | Some port \<Rightarrow> (Some window, app\<lparr>calls := calls app @ [LoadURL window frag]\<rparr>))"

definition openDefaultWindow ::
  "environment \<Rightarrow> electron_inputs \<Rightarrow> ElectronMainApplication
     \<Rightarrow> nat option \<times> ElectronMainApplication" where
  "openDefaultWindow env inp app =
     (let options = getDefaultTheiaWindowOptions (useNativeWindowFrame app) env;
          (electronWindow, app1) = reuseOrCreateWindow env inp options app
      in loadWhenPortKnown electronWindow DEFAULT_WINDOW_HASH app1)"

definition openWindowWithWorkspace ::
  "environment \<Rightarrow> electron_inputs \<Rightarrow> string \<Rightarrow> ElectronMainApplication
     \<Rightarrow> nat option \<times> ElectronMainApplication" where
  "openWindowWithWorkspace env inp workspacePath app =
     (let options = getLastWindowOptions (useNativeWindowFrame app) (electronStore app) env;
          (electronWindow, app1) = reuseOrCreateWindow env inp options app
      in loadWhenPortKnown electronWindow (WorkspacePath workspacePath) app1)"

text \<open>
  \<^verbatim>\<open>handleMainCommand\<close>. \<open>realpath\<close> is the outcome of \<^verbatim>\<open>fs.realpath\<close> on the
  resolved file (\<open>None\<close> when it throws). The first component of the result tells
  whether the call has returned.
\<close>

record ElectronMainCommandOptions =
  cmd_file :: "string option"
  cmd_cwd :: string
  secondInstance :: bool

definition returned :: "nat option \<times> ElectronMainApplication \<Rightarrow> bool \<times> ElectronMainApplication" where
  "returned r = (fst r \<noteq> None, snd r)"

definition handleMainCommand ::
  "environment \<Rightarrow> electron_inputs \<Rightarrow> string option \<Rightarrow> ElectronMainCommandOptions
     \<Rightarrow> ElectronMainApplication \<Rightarrow> bool \<times> ElectronMainApplication" where
  "handleMainCommand env inp realpath options app =
     (if \<not> secondInstance options then returned (openWindowWithWorkspace env inp [] app)
      else (case cmd_file options of
              None \<Rightarrow> returned (openDefaultWindow env inp app)
            | Some f \<Rightarrow>
                (case realpath of
                   None \<Rightarrow> returned (openDefaultWindow env inp app)
                 | Some workspacePath \<Rightarrow>
                     returned (openWindowWithWorkspace env inp workspacePath app))))"

definition requestStop :: "ElectronMainApplication \<Rightarrow> ElectronMainApplication" where
  "requestStop app = app\<lparr>calls := calls app @ [AppQuit]\<rparr>"

definition onWindowAllClosed :: "ElectronMainApplication \<Rightarrow> ElectronMainApplication" where
  "onWindowAllClosed app = (if \<not> restarting app then requestStop app else app)"

text \<open>
  What Electron reports of a window that closes: its bounds and its full-screen and
  maximized flags when its \<^verbatim>\<open>close\<close> event is handled (\<open>None\<close> when reading them
  throws), and whether the id of its web contents can still be read when its
  \<^verbatim>\<open>closed\<close> event is handled.
\<close>

record window_geometry =
  g_bounds :: Rectangle
  g_isFullScreen :: bool
  g_isMaximized :: bool

record close_report =
  geometry_at_close :: "window_geometry option"
  id_readable_when_closed :: bool

text \<open>
  \<^verbatim>\<open>saveWindowState\<close>, the listener of the \<^verbatim>\<open>close\<close> event: an exception while the
  geometry is read is caught and nothing is stored. The store keeps JSON, which drops a
  property that is \<^verbatim>\<open>undefined\<close>.
\<close>

definition saveWindowState ::
  "environment \<Rightarrow> window_geometry option \<Rightarrow> ElectronMainApplication \<Rightarrow> ElectronMainApplication" where
  "saveWindowState env geometry app =
     (case geometry of
        None \<Rightarrow> app
      | Some g \<Rightarrow>
          app\<lparr>electronStore := Some (emptyTheiaOptions\<lparr>
                 isFullScreen := Some (g_isFullScreen g),
                 isMaximized := Some (g_isMaximized g),
                 width := Some (rwidth (g_bounds g)),
                 height := Some (rheight (g_bounds g)),
                 opt_x := Some (rx (g_bounds g)),
                 opt_y := Some (ry (g_bounds g)),
                 frame := Some (useNativeWindowFrame app),
                 screenLayout := Some (currentScreenLayout env),
                 backgroundColor := customBackgroundColor app\<rparr>)\<rparr>)"

text \<open>
  The listener of the \<^verbatim>\<open>closed\<close> event that \<^verbatim>\<open>attachSaveWindowState\<close> adds: the
  entry of the window is deleted, unless reading the id throws, which is caught.
\<close>

definition disposeWindowStateListeners ::
  "bool \<Rightarrow> nat \<Rightarrow> ElectronMainApplication \<Rightarrow> ElectronMainApplication" where
  "disposeWindowStateListeners id_readable wid app =
     (if id_readable
      then app\<lparr>didUseNativeWindowFrameOnStart := (didUseNativeWindowFrameOnStart app)(wid := None)\<rparr>
      else app)"

text \<open>
  \<^verbatim>\<open>restart\<close>. The window wrapper's \<^verbatim>\<open>close(StopReason.Restart)\<close> is not part of
  these sources; its outcome is an input. Either the close is vetoed and the promise
  resolves to \<^verbatim>\<open>false\<close>. Or the window closes: its \<^verbatim>\<open>close\<close> event saves the
  geometry; on its \<^verbatim>\<open>closed\<close> event the \<^verbatim>\<open>onDidClose\<close> listeners run in the order
  they were added, the one of \<^verbatim>\<open>createWindow\<close> and then the one of \<^verbatim>\<open>restart\<close>,
  which calls \<^verbatim>\<open>handleMainCommand\<close>; this reads the store at once and creates its
  window only after the remaining listeners of the event have run; \<open>restarting\<close> is
  reset when \<^verbatim>\<open>handleMainCommand\<close> has returned.
\<close>

datatype close_outcome = Vetoed | WindowClosed close_report

definition restart ::
  "environment \<Rightarrow> electron_inputs \<Rightarrow> string \<Rightarrow> close_outcome \<Rightarrow> nat
     \<Rightarrow> ElectronMainApplication \<Rightarrow> ElectronMainApplication" where
  "restart env inp cwd outcome webContentsId app =
     (let app1 = app\<lparr>restarting := True\<rparr>
      in case windows app1 webContentsId of
           None \<Rightarrow> app1
         | Some wrapper \<Rightarrow>
             (case outcome of
                Vetoed \<Rightarrow> app1
              | WindowClosed report \<Rightarrow>
                  (let app2 = saveWindowState env (geometry_at_close report) app1;
                       app3 = onDidClose webContentsId app2;
                       app4 = disposeWindowStateListeners (id_readable_when_closed report)
                                webContentsId app3;
                       (finished, app5) = handleMainCommand env inp None
                                \<lparr>cmd_file = None, cmd_cwd = cwd, secondInstance = False\<rparr> app4
                   in if finished then app5\<lparr>restarting := False\<rparr> else app5)))"

text \<open>A run of window events from the creation of the application object.\<close>

datatype window_event =
    Create electron_inputs TheiaBrowserWindowOptions
  | Focus nat
  | Closed nat

definition initialApplication :: ElectronMainApplication where
  "initialApplication = \<lparr>useNativeWindowFrame = True, customBackgroundColor = None,
     electronStore = None,
     didUseNativeWindowFrameOnStart = Map.empty, windows = Map.empty, activeWindowStack = [],
     restarting = False, initialWindow = None, backendPort = None, calls = []\<rparr>"

fun apply_event :: "environment \<Rightarrow> ElectronMainApplication \<Rightarrow> window_event \<Rightarrow> ElectronMainApplication" where
  "apply_event env app (Create inp options) = snd (createWindow env inp options app)"
| "apply_event env app (Focus wid) = onFocus wid app"
| "apply_event env app (Closed wid) = onDidClose wid app"

definition run_events :: "environment \<Rightarrow> ElectronMainApplication \<Rightarrow> window_event list \<Rightarrow> ElectronMainApplication" where
  "run_events env app evs = foldl (apply_event env) app evs"

text \<open>
  The events Electron can deliver: a window is created with an id that no registered
  window has, and only a registered window is focused or closed.
\<close>

fun event_allowed :: "ElectronMainApplication \<Rightarrow> window_event \<Rightarrow> bool" where
  "event_allowed app (Create inp options) = (windows app (newId inp) = None)"
| "event_allowed app (Focus wid) = (windows app wid \<noteq> None)"
| "event_allowed app (Closed wid) = (windows app wid \<noteq> None)"

fun events_allowed :: "environment \<Rightarrow> ElectronMainApplication \<Rightarrow> window_event list \<Rightarrow> bool" where
  "events_allowed env app [] = True"
| "events_allowed env app (e # es) = (event_allowed app e \<and> events_allowed env (apply_event env app e) es)"

text \<open>
  When each registered window was last focused, read off the run alone: the position in
  the run of its latest focus event since it was created (\<open>None\<close> when it has had none).
\<close>

fun focus_times :: "nat \<Rightarrow> (nat \<rightharpoonup> nat) \<Rightarrow> window_event list \<Rightarrow> (nat \<rightharpoonup> nat)" where
  "focus_times t m [] = m"
| "focus_times t m (Create inp options # es) = focus_times (Suc t) (m(newId inp := None)) es"
| "focus_times t m (Focus wid # es) = focus_times (Suc t) (m(wid \<mapsto> t)) es"
| "focus_times t m (Closed wid # es) = focus_times (Suc t) (m(wid := None)) es"

definition last_focused :: "window_event list \<Rightarrow> (nat \<rightharpoonup> nat)" where
  "last_focused evs = focus_times 0 Map.empty evs"

text \<open>
  The invariant of the registry along a run. \<open>focus_rank\<close> orders the windows by the
  time of their last focus, the never focused ones last.
\<close>

definition focus_rank :: "(nat \<rightharpoonup> nat) \<Rightarrow> nat \<Rightarrow> nat" where
  "focus_rank m w = (case m w of None \<Rightarrow> 0 | Some v \<Rightarrow> Suc v)"

definition stack_inv :: "ElectronMainApplication \<Rightarrow> (nat \<rightharpoonup> nat) \<Rightarrow> nat \<Rightarrow> bool" where
  "stack_inv app m t \<longleftrightarrow>
     set (activeWindowStack app) = dom (windows app)
   \<and> distinct (activeWindowStack app)
   \<and> dom m \<subseteq> dom (windows app)
   \<and> (\<forall>w v. m w = Some v \<longrightarrow> v < t)
   \<and> (\<forall>a b v. m a = Some v \<and> m b = Some v \<longrightarrow> a = b)
   \<and> sorted_wrt (\<lambda>a b. focus_rank m b \<le> focus_rank m a) (activeWindowStack app)"

fun focus_step :: "nat \<Rightarrow> (nat \<rightharpoonup> nat) \<Rightarrow> window_event \<Rightarrow> (nat \<rightharpoonup> nat)" where
  "focus_step t m (Create inp options) = m(newId inp := None)"
| "focus_step t m (Focus wid) = m(wid \<mapsto> t)"
| "focus_step t m (Closed wid) = m(wid := None)"






section \<open>The renderer API: reply channels\<close>

text \<open>
  \<^verbatim>\<open>nextReplyChannel++\<close> on a JavaScript number is exact below \<open>2^53\<close>; from there on
  adding one no longer changes the value. A template literal prints the number in
  decimal.
\<close>

definition js_increment :: "nat \<Rightarrow> nat" where
  "js_increment n = (if n < 2 ^ 53 then n + 1 else n)"

definition digit_char :: "nat \<Rightarrow> char" where
  "digit_char d = ''0123456789'' ! d"

fun decimal :: "nat \<Rightarrow> string" where
  "decimal n = (if n < 10 then [digit_char n] else decimal (n div 10) @ [digit_char (n mod 10)])"

declare decimal.simps [simp del]

datatype StopReason = Close | Reload | Restart

datatype ipc_message =
    OPEN_URL string string
  | ABOUT_TO_CLOSE string
  | REQUEST_CLOSE StopReason string string
  | REQUEST_SECONDARY_CLOSE string string string

text \<open>
  The module variable \<^verbatim>\<open>nextReplyChannel\<close>, the channels on which \<^verbatim>\<open>ipcMain\<close>
  has a temporary listener (one entry per listener), and the messages sent to web
  contents, oldest first.
\<close>

record ipcMain =
  nextReplyChannel :: nat
  listeners :: "string multiset"
  sent :: "(nat \<times> ipc_message) list"

definition rendererOpenUrl :: "nat \<Rightarrow> string \<Rightarrow> ipcMain \<Rightarrow> string \<times> ipcMain" where
  "rendererOpenUrl wc url ipc =
     (let channelNr = nextReplyChannel ipc;
          replyChannel = ''openUrl'' @ decimal channelNr
      in (replyChannel,
          ipc\<lparr>nextReplyChannel := js_increment channelNr,
              listeners := add_mset replyChannel (listeners ipc),
              sent := sent ipc @ [(wc, OPEN_URL url replyChannel)]\<rparr>))"

text \<open>The listener of \<^verbatim>\<open>TheiaRendererAPI.openUrl\<close> on a reply: \<^verbatim>\<open>l.dispose()\<close>.\<close>

definition rendererOpenUrl_replied :: "string \<Rightarrow> ipcMain \<Rightarrow> ipcMain" where
  "rendererOpenUrl_replied replyChannel ipc = ipc\<lparr>listeners := listeners ipc - {#replyChannel#}\<rparr>"

text \<open>
  Modelled from the spec: the \<^verbatim>\<open>openUrl\<close> of the window wrapper, which is not part of
  these sources. Asking a window to accept the link passes the URL to
  \<^verbatim>\<open>TheiaRendererAPI.openUrl\<close> with the window's web contents.
\<close>

text \<open>
  \<^verbatim>\<open>ElectronMainApplication.openUrl\<close> iterates over \<open>activeWindowStack\<close> itself: the
  iterator keeps a position in the array, and while the loop awaits the answer of a
  window, the focus and close listeners change the array and the registry in place. The
  state of a call is the application, \<^verbatim>\<open>ipcMain\<close>, the position of the iterator, and
  the window whose answer is awaited with its reply channel, if any.
\<close>

datatype loop_status = Asking nat string | Finished

record openUrl_call =
  the_app :: ElectronMainApplication
  the_ipc :: ipcMain
  nextIndex :: nat
  status :: loop_status

text \<open>
  The iterator steps over \<open>ids\<close>, the array from position \<open>i\<close> on, to the first id with
  a registered window; the result is that id and the position after it.
\<close>

fun next_registered ::
  "(nat \<rightharpoonup> TheiaBrowserWindowOptions) \<Rightarrow> nat list \<Rightarrow> nat \<Rightarrow> (nat \<times> nat) option" where
  "next_registered ws [] i = None"
| "next_registered ws (wid # ids) i =
     (case ws wid of
        None \<Rightarrow> next_registered ws ids (Suc i)
      | Some window \<Rightarrow> Some (wid, Suc i))"

text \<open>The loop runs on from the position of the iterator until it awaits an answer or ends.\<close>

definition openUrl_continue :: "string \<Rightarrow> openUrl_call \<Rightarrow> openUrl_call" where
  "openUrl_continue url c =
     (case next_registered (windows (the_app c))
             (drop (nextIndex c) (activeWindowStack (the_app c))) (nextIndex c) of
        None \<Rightarrow> c\<lparr>nextIndex := length (activeWindowStack (the_app c)), status := Finished\<rparr>
      | Some (wid, i) \<Rightarrow>
          (let (replyChannel, ipc1) = rendererOpenUrl wid url (the_ipc c)
           in c\<lparr>the_ipc := ipc1, nextIndex := i, status := Asking wid replyChannel\<rparr>))"

definition openUrl :: "ElectronMainApplication \<Rightarrow> string \<Rightarrow> ipcMain \<Rightarrow> openUrl_call" where
  "openUrl app url ipc =
     openUrl_continue url \<lparr>the_app = app, the_ipc = ipc, nextIndex = 0, status = Finished\<rparr>"

text \<open>
  What can happen while the call is under way: the window that was asked answers on its
  reply channel, or a window event is delivered. An answer disposes of the listener; a
  truthy one ends the loop, another one lets it run on.
\<close>

datatype openUrl_event = Answer bool | WindowEvent window_event

fun openUrl_step :: "environment \<Rightarrow> string \<Rightarrow> openUrl_call \<Rightarrow> openUrl_event \<Rightarrow> openUrl_call" where
  "openUrl_step env url c (Answer accepted) =
     (case status c of
        Finished \<Rightarrow> c
      | Asking wid replyChannel \<Rightarrow>
          (let c1 = c\<lparr>the_ipc := rendererOpenUrl_replied replyChannel (the_ipc c)\<rparr>
           in if accepted then c1\<lparr>status := Finished\<rparr> else openUrl_continue url c1))"
| "openUrl_step env url c (WindowEvent e) = c\<lparr>the_app := apply_event env (the_app c) e\<rparr>"

definition openUrl_run ::
  "environment \<Rightarrow> string \<Rightarrow> openUrl_call \<Rightarrow> openUrl_event list \<Rightarrow> openUrl_call" where
  "openUrl_run env url c evs = foldl (openUrl_step env url) c evs"

definition registered :: "ElectronMainApplication \<Rightarrow> nat list" where
  "registered app = filter (\<lambda>wid. windows app wid \<noteq> None) (activeWindowStack app)"

text \<open>The web contents that were sent an open-URL message, oldest first.\<close>

fun is_open_url :: "nat \<times> ipc_message \<Rightarrow> bool" where
  "is_open_url (wc, OPEN_URL url replyChannel) = True"
| "is_open_url (wc, other) = False"

definition deliveries :: "ipcMain \<Rightarrow> nat list" where
  "deliveries ipc = map fst (filter is_open_url (sent ipc))"

text \<open>
  \<^verbatim>\<open>requestClose\<close> and \<^verbatim>\<open>requestSecondaryClose\<close>: the pending request (its two
  channels and the value its promise has resolved to, if any) and the new state of
  \<^verbatim>\<open>ipcMain\<close>.
\<close>

record close_request =
  confirmChannel :: string
  cancelChannel :: string
  resolved :: "bool option"

definition requestClose :: "nat \<Rightarrow> StopReason \<Rightarrow> ipcMain \<Rightarrow> close_request \<times> ipcMain" where
  "requestClose wc stopReason ipc =
     (let channelNr = nextReplyChannel ipc;
          confirmCh = ''confirm-'' @ decimal channelNr;
          cancelCh = ''cancel-'' @ decimal channelNr
      in (\<lparr>confirmChannel = confirmCh, cancelChannel = cancelCh, resolved = None\<rparr>,
          ipc\<lparr>nextReplyChannel := js_increment channelNr,
              sent := sent ipc @ [(wc, REQUEST_CLOSE stopReason confirmCh cancelCh)],
              listeners := add_mset cancelCh (add_mset confirmCh (listeners ipc))\<rparr>))"

definition requestSecondaryClose :: "nat \<Rightarrow> string \<Rightarrow> ipcMain \<Rightarrow> close_request \<times> ipcMain" where
  "requestSecondaryClose mainWindow secondaryWindowName ipc =
     (let channelNr = nextReplyChannel ipc;
          confirmCh = ''confirm-'' @ decimal channelNr;
          cancelCh = ''cancel-'' @ decimal channelNr
      in (\<lparr>confirmChannel = confirmCh, cancelChannel = cancelCh, resolved = None\<rparr>,
          ipc\<lparr>nextReplyChannel := js_increment channelNr,
              sent := sent ipc @ [(mainWindow, REQUEST_SECONDARY_CLOSE secondaryWindowName confirmCh cancelCh)],
              listeners := add_mset cancelCh (add_mset confirmCh (listeners ipc))\<rparr>))"

text \<open>
  A message arrives on \<open>channel\<close>. If the request still listens there, the listener
  resolves the promise with \<^verbatim>\<open>true\<close> on the confirm channel and \<^verbatim>\<open>false\<close> on the
  cancel channel (a promise keeps its first value), and when the promise settles the
  \<^verbatim>\<open>finally\<close> callback disposes of both listeners, before the next message is handled.
\<close>

definition resolve :: "bool \<Rightarrow> close_request \<Rightarrow> close_request" where
  "resolve v req = req\<lparr>resolved := (case resolved req of None \<Rightarrow> Some v | Some r \<Rightarrow> Some r)\<rparr>"

definition dispose :: "close_request \<Rightarrow> ipcMain \<Rightarrow> ipcMain" where
  "dispose req ipc = ipc\<lparr>listeners := listeners ipc - {#confirmChannel req#} - {#cancelChannel req#}\<rparr>"

definition receive :: "string \<Rightarrow> close_request \<times> ipcMain \<Rightarrow> close_request \<times> ipcMain" where
  "receive channel st =
     (let req = fst st; ipc = snd st
      in if channel \<in># listeners ipc \<and> (channel = confirmChannel req \<or> channel = cancelChannel req)
         then (resolve (channel = confirmChannel req) req,
               if resolved req = None then dispose req ipc else ipc)
         else (req, ipc))"

text \<open>What holds of a request just made, whichever function made it.\<close>

definition just_requested :: "ipcMain \<Rightarrow> close_request \<times> ipcMain \<Rightarrow> bool" where
  "just_requested ipc st \<longleftrightarrow>
     confirmChannel (fst st) = ''confirm-'' @ decimal (nextReplyChannel ipc)
   \<and> cancelChannel (fst st) = ''cancel-'' @ decimal (nextReplyChannel ipc)
   \<and> resolved (fst st) = None
   \<and> nextReplyChannel (snd st) = js_increment (nextReplyChannel ipc)
   \<and> listeners (snd st) = add_mset (cancelChannel (fst st)) (add_mset (confirmChannel (fst st)) (listeners ipc))"

section \<open>The worker supervisor: the quit handler of \<^verbatim>\<open>startBackend\<close>\<close>

text \<open>
  The forked backend process as the handler sees it: \<^verbatim>\<open>pid\<close> is absent when the fork
  failed, \<^verbatim>\<open>exitCode\<close> and \<^verbatim>\<open>signalCode\<close> are \<^verbatim>\<open>null\<close> while the process runs.
  \<open>process_kill p\<close> is what \<^verbatim>\<open>process.kill(p)\<close> does: it returns (\<open>None\<close>) or throws an
  error, of which the \<^verbatim>\<open>code\<close> is kept (absent for an error without one).
\<close>

record ChildProcess =
  pid :: "nat option"
  exitCode :: "int option"
  signalCode :: "string option"

record quit_result =
  kill_calls :: "int list"
  thrown :: "string option option"

definition onQuit :: "(int \<Rightarrow> string option option) \<Rightarrow> ChildProcess \<Rightarrow> quit_result" where
  "onQuit process_kill backendProcess =
     (if exitCode backendProcess = None \<and> signalCode backendProcess = None then
        (case pid backendProcess of
           None \<Rightarrow> \<lparr>kill_calls = [], thrown = None\<rparr>
         | Some p \<Rightarrow>
             if p = 0 then \<lparr>kill_calls = [], thrown = None\<rparr>
             else (case process_kill (int p) of
                     None \<Rightarrow> \<lparr>kill_calls = [int p], thrown = None\<rparr>
                   | Some error_code \<Rightarrow>
                       if error_code = Some ''ESRCH'' then \<lparr>kill_calls = [int p], thrown = None\<rparr>
                       else \<lparr>kill_calls = [int p], thrown = Some error_code\<rparr>))
      else \<lparr>kill_calls = [], thrown = None\<rparr>)"

text \<open>\<^verbatim>\<open>getForkOptions\<close>: the \<^verbatim>\<open>detached\<close> flag.\<close>

definition getForkOptions_detached :: "string \<Rightarrow> bool" where
  "getForkOptions_detached platform = (platform \<noteq> ''win32'')"

text \<open>
  Whom a signal reaches, by the rules of \<^verbatim>\<open>kill(2)\<close> that the handler's comment cites
  and \<^verbatim>\<open>process.kill\<close> follows: a positive argument names one process, a negative one
  the process group of that number.
\<close>

datatype signal_target = OneProcess nat | ProcessGroup nat | CallersGroup | EveryProcess

definition kill_target :: "int \<Rightarrow> signal_target" where
  "kill_target p =
     (if p > 0 then OneProcess (nat p)
      else if p = 0 then CallersGroup
      else if p = - 1 then EveryProcess
      else ProcessGroup (nat (- p)))"

section \<open>The splash coordinator\<close>

text \<open>
  \<^verbatim>\<open>configureAndShowSplashScreen\<close> starts two timers on one cancellation token and
  registers two continuations. Time is counted in milliseconds from the start of the
  timers.
\<close>

text \<open>
  Modelled from the spec: \<^verbatim>\<open>timeout(ms, token)\<close> of \<^verbatim>\<open>promise-util\<close>, which is not
  part of these sources. It gives a promise that is fulfilled once \<open>ms\<close> have elapsed,
  unless the token was cancelled before; cancelling clears a pending timer and rejects its
  promise, and leaves a fulfilled one as it is.
\<close>

datatype promise = Pending | Fulfilled | Rejected

text \<open>
  \<open>waiting\<close> counts the continuations that ready notifications have put on
  \<open>minTime\<close> while it was pending; \<open>visible\<close> is \<^verbatim>\<open>mainWindow.isVisible()\<close>;
  \<open>shown_at\<close> and \<open>closed_at\<close> are the times of the calls of \<^verbatim>\<open>mainWindow.show()\<close>
  and of \<^verbatim>\<open>splashScreenWindow.close()\<close>.
\<close>

record splash =
  clock :: nat
  minTime :: promise
  maxTime :: promise
  waiting :: nat
  visible :: bool
  shown_at :: "nat list"
  closed_at :: "nat list"

definition min_duration :: "SplashScreenOptions \<Rightarrow> nat" where
  "min_duration opts = (case minDuration opts of Some d \<Rightarrow> d | None \<Rightarrow> 0)"

definition max_duration :: "SplashScreenOptions \<Rightarrow> nat" where
  "max_duration opts = (case maxDuration opts of Some d \<Rightarrow> d | None \<Rightarrow> 30000)"

definition splash_start :: "bool \<Rightarrow> splash" where
  "splash_start v = \<lparr>clock = 0, minTime = Pending, maxTime = Pending, waiting = 0,
     visible = v, shown_at = [], closed_at = []\<rparr>"

definition cancel :: "promise \<Rightarrow> promise" where
  "cancel p = (if p = Pending then Rejected else p)"

definition showWindowAndCloseSplashScreen :: "splash \<Rightarrow> splash" where
  "showWindowAndCloseSplashScreen s =
     (let s1 = s\<lparr>minTime := cancel (minTime s), maxTime := cancel (maxTime s)\<rparr>;
          s2 = (if \<not> visible s1 then s1\<lparr>visible := True, shown_at := shown_at s1 @ [clock s1]\<rparr>
                else s1)
      in s2\<lparr>closed_at := closed_at s2 @ [clock s2]\<rparr>)"

text \<open>The main window reports the application state \<^verbatim>\<open>'ready'\<close>.\<close>

definition onReady :: "splash \<Rightarrow> splash" where
  "onReady s =
     (case minTime s of
        Pending \<Rightarrow> s\<lparr>waiting := Suc (waiting s)\<rparr>
      | Fulfilled \<Rightarrow> showWindowAndCloseSplashScreen s
      | Rejected \<Rightarrow> s)"

text \<open>A timer fires: its promise is fulfilled and the continuations on it run.\<close>

definition fire_min :: "splash \<Rightarrow> splash" where
  "fire_min s =
     (if minTime s = Pending
      then (showWindowAndCloseSplashScreen ^^ waiting s) (s\<lparr>minTime := Fulfilled, waiting := 0\<rparr>)
      else s)"

definition fire_max :: "splash \<Rightarrow> splash" where
  "fire_max s =
     (if maxTime s = Pending then showWindowAndCloseSplashScreen (s\<lparr>maxTime := Fulfilled\<rparr>)
      else s)"

text \<open>
  Time passes until \<open>t\<close>: a timer that is due by then fires at the time it is due, the
  one with the shorter delay first, and of two equal delays the one started first
  (\<open>minTime\<close>).
\<close>

definition fire_at :: "nat \<Rightarrow> (splash \<Rightarrow> splash) \<Rightarrow> nat \<Rightarrow> splash \<Rightarrow> splash" where
  "fire_at due fire t s = (if due \<le> t then fire (s\<lparr>clock := max (clock s) due\<rparr>) else s)"

definition advance :: "nat \<Rightarrow> nat \<Rightarrow> nat \<Rightarrow> splash \<Rightarrow> splash" where
  "advance m M t s =
     (let s1 = (if m \<le> M then fire_at m fire_min t s else fire_at M fire_max t s);
          s2 = (if m \<le> M then fire_at M fire_max t s1 else fire_at m fire_min t s1)
      in s2\<lparr>clock := max (clock s2) t\<rparr>)"

datatype splash_event = Tick nat | Ready

fun splash_step :: "nat \<Rightarrow> nat \<Rightarrow> splash \<Rightarrow> splash_event \<Rightarrow> splash" where
  "splash_step m M s (Tick t) = advance m M t s"
| "splash_step m M s Ready = onReady s"

definition splash_run :: "nat \<Rightarrow> nat \<Rightarrow> splash \<Rightarrow> splash_event list \<Rightarrow> splash" where
  "splash_run m M s evs = foldl (splash_step m M) s evs"

text \<open>
  The state of the splash after \<^verbatim>\<open>configureAndShowSplashScreen\<close> with the given
  options, a target window that is visible or not, and the events that followed.
\<close>

definition configureAndShowSplashScreen :: "SplashScreenOptions \<Rightarrow> bool \<Rightarrow> splash_event list \<Rightarrow> splash" where
  "configureAndShowSplashScreen opts v evs =
     splash_run (min_duration opts) (max_duration opts) (splash_start v) evs"

text \<open>The invariants of the splash along a run, and of runs without a ready notification.\<close>

definition splash_inv :: "nat \<Rightarrow> nat \<Rightarrow> splash \<Rightarrow> bool" where
  "splash_inv m M s \<longleftrightarrow>
     (minTime s = Fulfilled \<longrightarrow> m \<le> clock s)
   \<and> (\<forall>c \<in> set (closed_at s). min m M \<le> c)
   \<and> (closed_at s \<noteq> [] \<longrightarrow> minTime s \<noteq> Pending \<and> maxTime s \<noteq> Pending \<and> visible s)
   \<and> (shown_at s \<noteq> [] \<longrightarrow> visible s)
   \<and> length (shown_at s) \<le> 1"

definition quiet_pending :: "nat \<Rightarrow> bool \<Rightarrow> splash \<Rightarrow> bool" where
  "quiet_pending M v s \<longleftrightarrow>
     waiting s = 0 \<and> maxTime s = Pending \<and> closed_at s = [] \<and> shown_at s = []
   \<and> visible s = v \<and> clock s \<le> M"

definition quiet_done :: "nat \<Rightarrow> bool \<Rightarrow> splash \<Rightarrow> bool" where
  "quiet_done M v s \<longleftrightarrow>
     maxTime s \<noteq> Pending \<and> minTime s \<noteq> Pending \<and> closed_at s = [M]
   \<and> shown_at s = (if v then [] else [M]) \<and> visible s"

definition splash_live :: "nat \<Rightarrow> splash \<Rightarrow> bool" where
  "splash_live M s \<longleftrightarrow>
     (maxTime s = Pending \<longrightarrow> clock s \<le> M \<and> closed_at s = [])
   \<and> (maxTime s \<noteq> Pending \<longrightarrow> closed_at s \<noteq> [] \<and> hd (closed_at s) \<le> M)"

text \<open>Example inputs: a display, configurations, and a staircase of windows.\<close>

definition display_1920 :: Rectangle where
  "display_1920 = \<lparr>rx = 0, ry = 0, rwidth = 1920, rheight = 1080\<rparr>"

definition plain_env :: environment where
  "plain_env = \<lparr>applicationName = ''AI Player inner'', windowOptions = None,
     showWindowEarly = True, splashScreenOptions = None, env_NO_EARLY_WINDOW = None,
     themeBackgroundColor = ''#1E1E1E'', displayNearestCursor = display_1920,
     currentScreenLayout = ''0:0:1920:1080''\<rparr>"

definition wide_env :: environment where
  "wide_env = plain_env\<lparr>windowOptions := Some (emptyOptions\<lparr>width := Some 800\<rparr>)\<rparr>"

definition candidate_at :: "int \<Rightarrow> int \<Rightarrow> TheiaBrowserWindowOptions" where
  "candidate_at a b = emptyTheiaOptions\<lparr>opt_x := Some a, opt_y := Some b,
     width := Some 800, height := Some 600, isMaximized := Some False, isFullScreen := Some False\<rparr>"

definition saved_state :: "string \<Rightarrow> TheiaBrowserWindowOptions" where
  "saved_state layout = emptyTheiaOptions\<lparr>opt_x := Some 100, opt_y := Some 50,
     width := Some 1000, height := Some 700, frame := Some True, isMaximized := Some False,
     isFullScreen := Some False, screenLayout := Some layout\<rparr>"

definition inputs_for :: "nat \<Rightarrow> electron_inputs" where
  "inputs_for k = \<lparr>existingWindowsBounds = [], newId = k\<rparr>"

definition example_events :: "window_event list" where
  "example_events =
     [Create (inputs_for 1) (candidate_at 0 0), Create (inputs_for 2) (candidate_at 40 40),
      Focus 2, Focus 1, Closed 1]"

definition one_window :: ElectronMainApplication where
  "one_window = snd (createWindow plain_env (inputs_for 1) (candidate_at 0 0) initialApplication)"


definition two_windows :: ElectronMainApplication where
  "two_windows = run_events plain_env initialApplication
     [Create (inputs_for 1) (candidate_at 0 0), Create (inputs_for 2) (candidate_at 40 40),
      Focus 2, Focus 1]"

definition fresh_ipc :: ipcMain where
  "fresh_ipc = \<lparr>nextReplyChannel = 0, listeners = {#}, sent = []\<rparr>"

definition running_backend :: ChildProcess where
  "running_backend = \<lparr>pid = Some 4242, exitCode = None, signalCode = None\<rparr>"

definition kill_delivers :: "int \<Rightarrow> string option option" where
  "kill_delivers p = None"

definition kill_fails :: "string \<Rightarrow> int \<Rightarrow> string option option" where
  "kill_fails error_code p = Some (Some error_code)"

definition default_splash :: SplashScreenOptions where
  "default_splash = \<lparr>content = Some ''resources/theia-logo.svg'', minDuration = None,
     maxDuration = None\<rparr>"

definition staircase :: "nat \<Rightarrow> Rectangle list" where
  "staircase k = map (\<lambda>i. \<lparr>rx = 30 * int i, ry = 30 * int (k + i), rwidth = 800, rheight = 600\<rparr>) [0..<k]"

section \<open>Results\<close>

text \<open>
  C8. \<^verbatim>\<open>getTitleBarStyle\<close> returns the first defined value of the override sources
  taken in the order: environment override, macOS default, persisted frame, configured
  preference, default of the remaining platforms.
\<close>

theorem getTitleBarStyle_priority:
  "titleBarStyle_spec i = Some (getTitleBarStyle i)"
  by (simp add: titleBarStyle_spec_def getTitleBarStyle_def source_environment_def
      source_macos_def source_persisted_def source_preference_def source_platform_rest_def
      split: option.split)

subsection \<open>Persisted geometry or defaults\<close>

lemma later_wins_simps:
  "later_wins (Some v) a = Some v" "later_wins None a = a" "later_wins b None = b"
  by (simp_all add: later_wins_def split: option.split)

lemma later_wins_absorb: "later_wins (later_wins d (Some v)) z = later_wins d (Some v)"
  by (cases d) (simp_all add: later_wins_def)

lemma later_wins_idem: "later_wins a a = a"
  by (cases a) (simp_all add: later_wins_def)

lemmas options_defs = getDefaultTheiaWindowOptions_def spread_def spread_base_def
  getDefaultOptions_def getDefaultTheiaWindowBounds_def emptyTheiaOptions_def Let_def
  later_wins_simps

lemma defaults_not_maximized:
  "isMaximized (getDefaultTheiaWindowOptions n env) = Some False"
  "isFullScreen (getDefaultTheiaWindowOptions n env) = Some False"
  by (simp_all add: getDefaultTheiaWindowOptions_def spread_def spread_base_def later_wins_def
      getDefaultOptions_def getDefaultTheiaWindowBounds_def emptyTheiaOptions_def Let_def)

lemma spread_base_defaults:
  "spread (spread (emptyTheiaOptions\<lparr>frame := Some n\<rparr>) (getDefaultOptions env))
      (getDefaultTheiaWindowOptions n env) = getDefaultTheiaWindowOptions n env"
  by (simp add: options_defs later_wins_absorb later_wins_idem)

lemma default_bounds:
  "width (getDefaultTheiaWindowOptions n env)
     = later_wins (width (configuredWindowOptions env))
         (Some (round_two_thirds (rwidth (displayNearestCursor env))))"
  "height (getDefaultTheiaWindowOptions n env)
     = later_wins (height (configuredWindowOptions env))
         (Some (round_two_thirds (rheight (displayNearestCursor env))))"
  "opt_x (getDefaultTheiaWindowOptions n env)
     = later_wins (opt_x (configuredWindowOptions env))
         (Some (rx (displayNearestCursor env)
            + (rwidth (displayNearestCursor env)
                 - round_two_thirds (rwidth (displayNearestCursor env)) + 1) div 2))"
  "opt_y (getDefaultTheiaWindowOptions n env)
     = later_wins (opt_y (configuredWindowOptions env))
         (Some (ry (displayNearestCursor env)
            + (rheight (displayNearestCursor env)
                 - round_two_thirds (rheight (displayNearestCursor env)) + 1) div 2))"
  by (simp_all add: options_defs round_add_half_def)

text \<open>
  The computed bounds are centred: the margin before the window exceeds the margin after
  it by 0 or 1.
\<close>

lemma default_bounds_centred:
  "0 \<le> 2 * ((w - round_two_thirds w + 1) div 2) - (w - round_two_thirds w)"
  "2 * ((w - round_two_thirds w + 1) div 2) - (w - round_two_thirds w) \<le> 1"
  by (simp_all add: round_two_thirds_def; presburger)+

lemma screenLayout_default: "screenLayout (getDefaultTheiaWindowOptions n env) = None"
  by (simp add: options_defs)

lemma screenLayout_spread: "screenLayout (spread a b) = later_wins (screenLayout b) (screenLayout a)"
  by (simp add: spread_def)

lemma getLastWindowOptions_nothing_saved:
  "getLastWindowOptions n None env = getDefaultTheiaWindowOptions n env"
  by (simp add: getLastWindowOptions_def spread_base_defaults)

text \<open>
  C4, as the claim states it, fails: with a stale saved layout and a configuration whose
  \<^verbatim>\<open>electron.windowOptions\<close> sets \<^verbatim>\<open>width: 800\<close>, the options returned for a
  1920 pixel wide display have width 800, not two thirds of the display (1280).
\<close>

theorem getLastWindowOptions_configured_width:
  "width (getLastWindowOptions True (Some (saved_state ''0:0:1280:720'')) wide_env) = Some 800
   \<and> round_two_thirds (rwidth (displayNearestCursor wide_env)) = 1280"
  by (simp add: getLastWindowOptions_def wide_env_def plain_env_def saved_state_def
      display_1920_def options_defs configuredWindowOptions_def emptyOptions_def
      round_add_half_def round_two_thirds_def)

text \<open>
  C4, amended. For a saved geometry \<open>G\<close> with stored layout fingerprint \<open>fp\<close>:
  \<^verbatim>\<open>getLastWindowOptions\<close> returns \<open>G\<close> (spread over the frame flag and the default
  options) exactly when \<open>fp\<close> is the current screen layout; otherwise it returns
  \<^verbatim>\<open>getDefaultTheiaWindowOptions()\<close>, which is neither maximized nor full screen and
  whose bounds are two thirds of the display nearest the cursor, centred, except that a
  value of \<^verbatim>\<open>x\<close>, \<^verbatim>\<open>y\<close>, \<^verbatim>\<open>width\<close> or \<^verbatim>\<open>height\<close> set in the configured
  \<^verbatim>\<open>electron.windowOptions\<close> replaces the computed one.
\<close>

theorem getLastWindowOptions_persisted_iff_layout:
  assumes "screenLayout G = Some fp"
  shows "(getLastWindowOptions n (Some G) env
            = spread (spread (emptyTheiaOptions\<lparr>frame := Some n\<rparr>) (getDefaultOptions env)) G)
         = (fp = currentScreenLayout env)
       \<and> (fp \<noteq> currentScreenLayout env \<longrightarrow>
            getLastWindowOptions n (Some G) env = getDefaultTheiaWindowOptions n env)
       \<and> isMaximized (getDefaultTheiaWindowOptions n env) = Some False
       \<and> isFullScreen (getDefaultTheiaWindowOptions n env) = Some False
       \<and> width (getDefaultTheiaWindowOptions n env)
           = later_wins (width (configuredWindowOptions env))
               (Some (round_two_thirds (rwidth (displayNearestCursor env))))
       \<and> height (getDefaultTheiaWindowOptions n env)
           = later_wins (height (configuredWindowOptions env))
               (Some (round_two_thirds (rheight (displayNearestCursor env))))
       \<and> opt_x (getDefaultTheiaWindowOptions n env)
           = later_wins (opt_x (configuredWindowOptions env))
               (Some (rx (displayNearestCursor env)
                  + (rwidth (displayNearestCursor env)
                       - round_two_thirds (rwidth (displayNearestCursor env)) + 1) div 2))
       \<and> opt_y (getDefaultTheiaWindowOptions n env)
           = later_wins (opt_y (configuredWindowOptions env))
               (Some (ry (displayNearestCursor env)
                  + (rheight (displayNearestCursor env)
                       - round_two_thirds (rheight (displayNearestCursor env)) + 1) div 2))"
proof -
  let ?base = "spread (emptyTheiaOptions\<lparr>frame := Some n\<rparr>) (getDefaultOptions env)"
  have choice: "(getLastWindowOptions n (Some G) env = spread ?base G) = (fp = currentScreenLayout env)
       \<and> (fp \<noteq> currentScreenLayout env \<longrightarrow>
            getLastWindowOptions n (Some G) env = getDefaultTheiaWindowOptions n env)"
  proof (cases "fp = currentScreenLayout env")
    case True
    then show ?thesis using assms by (simp add: getLastWindowOptions_def)
  next
    case False
    have r: "getLastWindowOptions n (Some G) env = getDefaultTheiaWindowOptions n env"
      using False assms by (simp add: getLastWindowOptions_def spread_base_defaults)
    have "screenLayout (getDefaultTheiaWindowOptions n env) = None"
      by (rule screenLayout_default)
    moreover have "screenLayout (spread ?base G) = Some fp"
      using assms by (simp add: screenLayout_spread later_wins_simps)
    ultimately have "getDefaultTheiaWindowOptions n env \<noteq> spread ?base G"
      by auto
    then show ?thesis using False r by simp
  qed
  show ?thesis
    using choice defaults_not_maximized[of n env] default_bounds[of n env] by simp
qed

theorem getLastWindowOptions_persisted_iff_layout_witness:
  "screenLayout (saved_state ''0:0:1920:1080'') = Some ''0:0:1920:1080''
   \<and> getLastWindowOptions False (Some (saved_state ''0:0:1920:1080'')) plain_env
       = spread (spread (emptyTheiaOptions\<lparr>frame := Some False\<rparr>) (getDefaultOptions plain_env))
           (saved_state ''0:0:1920:1080'')
   \<and> opt_x (getLastWindowOptions False (Some (saved_state ''0:0:1920:1080'')) plain_env) = Some 100
   \<and> width (getDefaultTheiaWindowOptions False plain_env) = Some 1280
   \<and> opt_x (getDefaultTheiaWindowOptions False plain_env) = Some 320"
proof -
  have h: "screenLayout (saved_state ''0:0:1920:1080'') = Some ''0:0:1920:1080''"
    by (simp add: saved_state_def emptyTheiaOptions_def)
  have c: "currentScreenLayout plain_env = ''0:0:1920:1080''"
    by (simp add: plain_env_def)
  have r: "getLastWindowOptions False (Some (saved_state ''0:0:1920:1080'')) plain_env
       = spread (spread (emptyTheiaOptions\<lparr>frame := Some False\<rparr>) (getDefaultOptions plain_env))
           (saved_state ''0:0:1920:1080'')"
    using getLastWindowOptions_persisted_iff_layout[OF h, of False plain_env] c by simp
  have x: "opt_x (spread (spread (emptyTheiaOptions\<lparr>frame := Some False\<rparr>) (getDefaultOptions plain_env))
           (saved_state ''0:0:1920:1080'')) = Some 100"
    by (simp add: spread_def spread_base_def saved_state_def emptyTheiaOptions_def later_wins_simps)
  have w: "width (getDefaultTheiaWindowOptions False plain_env) = Some 1280"
       "opt_x (getDefaultTheiaWindowOptions False plain_env) = Some 320"
    by (simp_all add: default_bounds configuredWindowOptions_def plain_env_def emptyOptions_def
        later_wins_simps display_1920_def round_two_thirds_def)
  show ?thesis using h r x w by simp
qed

subsection \<open>Overlap avoidance\<close>

lemma filter_length_mono:
  "(\<And>x. P x \<Longrightarrow> Q x) \<Longrightarrow> length (filter P xs) \<le> length (filter Q xs)"
  by (induction xs) auto

lemma filter_length_strict:
  "(\<And>x. P x \<Longrightarrow> Q x) \<Longrightarrow> w \<in> set xs \<Longrightarrow> Q w \<Longrightarrow> \<not> P w
     \<Longrightarrow> length (filter P xs) < length (filter Q xs)"
proof (induction xs)
  case Nil
  then show ?case by simp
next
  case (Cons a xs)
  have le: "length (filter P xs) \<le> length (filter Q xs)"
    using Cons.prems(1) by (rule filter_length_mono)
  show ?case
  proof (cases "a = w")
    case True
    then show ?thesis using Cons.prems le by simp
  next
    case False
    then have "w \<in> set xs" using Cons.prems by simp
    then have "length (filter P xs) < length (filter Q xs)" using Cons by blast
    then show ?thesis using Cons.prems(1) by auto
  qed
qed

lemma ahead_mono: "ahead f ws (map_option (\<lambda>v. v + 30) v) \<le> ahead f ws v"
  by (cases v) (auto simp: ahead_def intro: filter_length_mono)

lemma ahead_strict:
  "w \<in> set ws \<Longrightarrow> Some (f w) = v \<Longrightarrow> ahead f ws (map_option (\<lambda>v. v + 30) v) < ahead f ws v"
  by (cases v) (auto simp: ahead_def intro: filter_length_strict[where w=w])

lemma ahead_le: "ahead f ws v \<le> length ws"
  by (cases v) (auto simp: ahead_def)

lemma overlap_measure_decreases:
  assumes "collides ws options"
  shows "overlap_measure ws (avoidOverlap_body n env options) < overlap_measure ws options"
proof (cases "truthy (isMaximized options) \<or> truthy (isFullScreen options)")
  case True
  let ?d = "getDefaultTheiaWindowOptions n env"
  have "overlap_measure ws (avoidOverlap_body n env options)
        = ahead rx ws (map_option (\<lambda>v. v + 30) (opt_x ?d))
          + ahead ry ws (map_option (\<lambda>v. v + 30) (opt_y ?d))"
    using True
    by (simp add: overlap_measure_def avoidOverlap_body_def truthy_def defaults_not_maximized Let_def)
  also have "\<dots> \<le> length ws + length ws"
    by (intro add_mono ahead_le)
  finally show ?thesis
    using True by (simp add: overlap_measure_def)
next
  case False
  from assms obtain w where w: "w \<in> set ws"
      "Some (rx w) = opt_x options \<or> Some (ry w) = opt_y options"
    by (auto simp: collides_def list_ex_iff)
  have body: "avoidOverlap_body n env options =
      options\<lparr>opt_x := map_option (\<lambda>v. v + 30) (opt_x options),
               opt_y := map_option (\<lambda>v. v + 30) (opt_y options)\<rparr>"
    using False by (simp add: avoidOverlap_body_def Let_def)
  have mx: "ahead rx ws (map_option (\<lambda>v. v + 30) (opt_x options)) \<le> ahead rx ws (opt_x options)"
    by (rule ahead_mono)
  have my: "ahead ry ws (map_option (\<lambda>v. v + 30) (opt_y options)) \<le> ahead ry ws (opt_y options)"
    by (rule ahead_mono)
  have "ahead rx ws (map_option (\<lambda>v. v + 30) (opt_x options)) < ahead rx ws (opt_x options)
      \<or> ahead ry ws (map_option (\<lambda>v. v + 30) (opt_y options)) < ahead ry ws (opt_y options)"
    using w ahead_strict[of w ws rx] ahead_strict[of w ws ry] by blast
  then show ?thesis
    using mx my False by (auto simp: overlap_measure_def body truthy_def)
qed

lemma iterations_le_measure:
  "avoidOverlap_iterations n env ws options \<le> overlap_measure ws options"
proof (induction n env ws options rule: avoidOverlap_iterations.induct)
  case (1 n env ws options)
  show ?case
  proof (cases "collides ws options")
    case True
    then have "avoidOverlap_iterations n env ws options
        = Suc (avoidOverlap_iterations n env ws (avoidOverlap_body n env options))"
      by (simp add: avoidOverlap_iterations.simps)
    also have "\<dots> \<le> Suc (overlap_measure ws (avoidOverlap_body n env options))"
      using 1 True by simp
    also have "\<dots> \<le> overlap_measure ws options"
      using overlap_measure_decreases[OF True, of n env] by simp
    finally show ?thesis .
  next
    case False
    then show ?thesis by (simp add: avoidOverlap_iterations.simps)
  qed
qed

lemma overlap_measure_le: "overlap_measure ws options \<le> 2 * length ws + 1"
  using ahead_le[of rx ws "opt_x options"] ahead_le[of ry ws "opt_y options"]
  by (simp add: overlap_measure_def)

lemma loop_is_iterated_body:
  "avoidOverlap_loop n env ws options
     = (avoidOverlap_body n env ^^ avoidOverlap_iterations n env ws options) options"
proof (induction n env ws options rule: avoidOverlap_loop.induct)
  case (1 n env ws options)
  show ?case
  proof (cases "collides ws options")
    case True
    then show ?thesis
      using 1 by (simp add: avoidOverlap_loop.simps[of n env ws options]
          avoidOverlap_iterations.simps[of n env ws options] funpow_swap1)
  next
    case False
    then show ?thesis
      by (simp add: avoidOverlap_loop.simps[of n env ws options]
          avoidOverlap_iterations.simps[of n env ws options])
  qed
qed

lemma loop_result_free: "\<not> collides ws (avoidOverlap_loop n env ws options)"
proof (induction n env ws options rule: avoidOverlap_loop.induct)
  case (1 n env ws options)
  then show ?case
    by (cases "collides ws options") (simp_all add: avoidOverlap_loop.simps[of n env ws options])
qed

lemma avoidOverlap_result_free: "\<not> collides ws (avoidOverlap n env ws options)"
proof (cases "ws = []")
  case True
  then show ?thesis by (simp add: avoidOverlap_def collides_def)
next
  case False
  then show ?thesis by (simp add: avoidOverlap_def loop_result_free)
qed

text \<open>
  A staircase of \<open>k\<close> windows keeps a candidate starting at the origin colliding for
  \<open>2k\<close> rounds: first on the \<open>x\<close> of each window, then on the \<open>y\<close> of each.
\<close>

lemma collides_staircase:
  "collides (staircase k) (candidate_at (30 * int j) (30 * int j)) \<longleftrightarrow> j < 2 * k"
proof -
  have "collides (staircase k) (candidate_at (30 * int j) (30 * int j))
      \<longleftrightarrow> (\<exists>i<k. i = j \<or> k + i = j)"
    by (auto simp: collides_def list_ex_iff staircase_def candidate_at_def emptyTheiaOptions_def)
  also have "\<dots> \<longleftrightarrow> j < 2 * k"
  proof
    assume "\<exists>i<k. i = j \<or> k + i = j"
    then show "j < 2 * k" by auto
  next
    assume j: "j < 2 * k"
    show "\<exists>i<k. i = j \<or> k + i = j"
    proof (cases "j < k")
      case True
      then show ?thesis by auto
    next
      case False
      then have "j - k < k" "k + (j - k) = j" using j by auto
      then show ?thesis by blast
    qed
  qed
  finally show ?thesis .
qed

lemma body_candidate:
  "avoidOverlap_body n env (candidate_at a b) = candidate_at (a + 30) (b + 30)"
  by (simp add: avoidOverlap_body_def candidate_at_def truthy_def emptyTheiaOptions_def Let_def)

lemma staircase_iterations_from:
  "j \<le> 2 * k \<Longrightarrow>
   avoidOverlap_iterations n env (staircase k) (candidate_at (30 * int j) (30 * int j)) = 2 * k - j"
proof (induction "2 * k - j" arbitrary: j)
  case 0
  then have "\<not> collides (staircase k) (candidate_at (30 * int j) (30 * int j))"
    by (simp add: collides_staircase)
  then have "avoidOverlap_iterations n env (staircase k) (candidate_at (30 * int j) (30 * int j)) = 0"
    by (simp add: avoidOverlap_iterations.simps[of n env "staircase k"])
  then show ?case using 0 by simp
next
  case (Suc m)
  then have lt: "j < 2 * k" by simp
  have step: "candidate_at (30 * int j + 30) (30 * int j + 30)
      = candidate_at (30 * int (Suc j)) (30 * int (Suc j))"
    by (simp add: algebra_simps)
  have "avoidOverlap_iterations n env (staircase k)
      (candidate_at (30 * int (Suc j)) (30 * int (Suc j))) = 2 * k - Suc j"
    using Suc lt by (intro Suc.hyps(1)) auto
  then show ?case using lt
    by (simp add: avoidOverlap_iterations.simps[of n env "staircase k"
          "candidate_at (30 * int j) (30 * int j)"]
        collides_staircase body_candidate step)
qed

lemma staircase_iterations:
  "avoidOverlap_iterations n env (staircase k) (candidate_at 0 0) = 2 * k"
  using staircase_iterations_from[of 0 k n env] by simp

text \<open>
  C2, as the claim states it, fails: the number of rounds is not the number of windows
  plus a small constant. With 20 existing windows the loop body runs 40 times (and
  \<open>staircase_iterations\<close> gives \<open>2k\<close> rounds for every \<open>k\<close>).
\<close>

theorem avoidOverlap_forty_rounds:
  "length (staircase 20) = 20
   \<and> avoidOverlap_iterations False plain_env (staircase 20) (candidate_at 0 0) = 40"
  using staircase_iterations[of False plain_env 20] by (simp add: staircase_def)

text \<open>
  C2, amended. For \<open>N\<close> existing windows the loop of \<^verbatim>\<open>avoidOverlap\<close> ends after at
  most \<open>2N + 1\<close> rounds, with a candidate that shares no \<open>x\<close> and no \<open>y\<close> with an
  existing window; a round on a maximized or full-screen candidate first replaces it by
  \<^verbatim>\<open>getDefaultTheiaWindowOptions()\<close> and then adds 30 to \<open>x\<close> and \<open>y\<close>, a round on
  any other candidate only adds 30 to \<open>x\<close> and \<open>y\<close>.
\<close>

theorem avoidOverlap_terminates:
  "avoidOverlap_iterations n env ws options \<le> 2 * length ws + 1
   \<and> avoidOverlap_loop n env ws options
       = (avoidOverlap_body n env ^^ avoidOverlap_iterations n env ws options) options
   \<and> \<not> collides ws (avoidOverlap n env ws options)
   \<and> (truthy (isMaximized options) \<or> truthy (isFullScreen options) \<longrightarrow>
        avoidOverlap_body n env options
          = (getDefaultTheiaWindowOptions n env)
              \<lparr>opt_x := map_option (\<lambda>v. v + 30) (opt_x (getDefaultTheiaWindowOptions n env)),
               opt_y := map_option (\<lambda>v. v + 30) (opt_y (getDefaultTheiaWindowOptions n env))\<rparr>)
   \<and> (\<not> (truthy (isMaximized options) \<or> truthy (isFullScreen options)) \<longrightarrow>
        avoidOverlap_body n env options
          = options\<lparr>opt_x := map_option (\<lambda>v. v + 30) (opt_x options),
                     opt_y := map_option (\<lambda>v. v + 30) (opt_y options)\<rparr>)"
proof -
  have "avoidOverlap_iterations n env ws options \<le> 2 * length ws + 1"
    using iterations_le_measure[of n env ws options] overlap_measure_le[of ws options]
    by (rule le_trans)
  then show ?thesis
    by (simp add: loop_is_iterated_body[symmetric] avoidOverlap_result_free
        avoidOverlap_body_def Let_def)
qed

theorem avoidOverlap_terminates_witness:
  "truthy (isMaximized ((candidate_at 0 0)\<lparr>isMaximized := Some True\<rparr>))
   \<and> avoidOverlap_iterations True plain_env (staircase 2) ((candidate_at 0 0)\<lparr>isMaximized := Some True\<rparr>) \<le> 5
   \<and> avoidOverlap_body True plain_env ((candidate_at 0 0)\<lparr>isMaximized := Some True\<rparr>)
       = (getDefaultTheiaWindowOptions True plain_env)
           \<lparr>opt_x := map_option (\<lambda>v. v + 30) (opt_x (getDefaultTheiaWindowOptions True plain_env)),
            opt_y := map_option (\<lambda>v. v + 30) (opt_y (getDefaultTheiaWindowOptions True plain_env))\<rparr>
   \<and> \<not> truthy (isMaximized (candidate_at 0 0))
   \<and> \<not> truthy (isFullScreen (candidate_at 0 0))
   \<and> avoidOverlap_body True plain_env (candidate_at 0 0)
       = (candidate_at 0 0)\<lparr>opt_x := map_option (\<lambda>v. v + 30) (opt_x (candidate_at 0 0)),
                             opt_y := map_option (\<lambda>v. v + 30) (opt_y (candidate_at 0 0))\<rparr>"
proof -
  have m: "truthy (isMaximized ((candidate_at 0 0)\<lparr>isMaximized := Some True\<rparr>))"
    by (simp add: truthy_def)
  have p: "\<not> truthy (isMaximized (candidate_at 0 0))" "\<not> truthy (isFullScreen (candidate_at 0 0))"
    by (simp_all add: truthy_def candidate_at_def emptyTheiaOptions_def)
  show ?thesis
    using m p
      avoidOverlap_terminates[of True plain_env "staircase 2" "(candidate_at 0 0)\<lparr>isMaximized := Some True\<rparr>"]
      avoidOverlap_terminates[of True plain_env "staircase 2" "candidate_at 0 0"]
    by (simp add: staircase_def)
qed

subsection \<open>The activation stack\<close>

lemma focus_times_Cons: "focus_times t m (e # es) = focus_times (Suc t) (focus_step t m e) es"
  by (cases e) simp_all

lemma sorted_wrt_remove1: "sorted_wrt P xs \<Longrightarrow> sorted_wrt P (remove1 x xs)"
proof (induction xs)
  case Nil then show ?case by simp
next
  case (Cons a xs)
  then show ?case using notin_set_remove1[of _ xs x] by (auto)
qed

lemma stack_fields:
  "activeWindowStack (snd (createWindow env inp options app)) = activeWindowStack app @ [newId inp]"
  "dom (windows (snd (createWindow env inp options app))) = insert (newId inp) (dom (windows app))"
  "activeWindowStack (onFocus wid app) = wid # remove1 wid (activeWindowStack app)"
  "windows (onFocus wid app) = windows app"
  "activeWindowStack (onDidClose wid app) = remove1 wid (activeWindowStack app)"
  "windows (onDidClose wid app) = (windows app)(wid := None)"
  by (simp_all add: createWindow_def onFocus_def onDidClose_def Let_def)

lemma inv_create:
  assumes "stack_inv app m t" "windows app (newId inp) = None"
  shows "stack_inv (snd (createWindow env inp options app)) (m(newId inp := None)) (Suc t)"
proof -
  let ?i = "newId inp"
  have d: "distinct (activeWindowStack app)" and s: "set (activeWindowStack app) = dom (windows app)"
    and lt: "\<And>w v. m w = Some v \<Longrightarrow> v < t"
    and inj: "\<And>a b v. m a = Some v \<Longrightarrow> m b = Some v \<Longrightarrow> a = b"
    and dm: "dom m \<subseteq> dom (windows app)"
    and so: "sorted_wrt (\<lambda>a b. focus_rank m b \<le> focus_rank m a) (activeWindowStack app)"
    using assms(1) by (auto simp: stack_inv_def)
  have notin: "?i \<notin> set (activeWindowStack app)" using s assms(2) by auto
  have mi: "m ?i = None" using dm assms(2) by auto
  then have same: "m(?i := None) = m" by (simp add: fun_upd_idem)
  have rk: "focus_rank m ?i = 0" using mi by (simp add: focus_rank_def)
  have a1: "set (activeWindowStack app @ [?i]) = insert ?i (dom (windows app))" using s by simp
  have a2: "distinct (activeWindowStack app @ [?i])" using d notin by simp
  have a3: "dom m \<subseteq> insert ?i (dom (windows app))" using dm by auto
  have a4: "\<forall>w v. m w = Some v \<longrightarrow> v < Suc t" using lt less_Suc_eq by blast
  have a5: "\<forall>a b v. m a = Some v \<and> m b = Some v \<longrightarrow> a = b" using inj by blast
  have a6: "sorted_wrt (\<lambda>a b. focus_rank m b \<le> focus_rank m a) (activeWindowStack app @ [?i])"
    using so rk by (simp add: sorted_wrt_append)
  show ?thesis
    unfolding stack_inv_def stack_fields same
    using a1 a2 a3 a4 a5 a6 by simp
qed

lemma inv_focus:
  assumes "stack_inv app m t" "windows app wid \<noteq> None"
  shows "stack_inv (onFocus wid app) (m(wid \<mapsto> t)) (Suc t)"
proof -
  let ?st = "activeWindowStack app"
  let ?m = "m(wid \<mapsto> t)"
  have d: "distinct ?st" and s: "set ?st = dom (windows app)"
    and lt: "\<And>w v. m w = Some v \<Longrightarrow> v < t"
    and inj: "\<And>a b v. m a = Some v \<Longrightarrow> m b = Some v \<Longrightarrow> a = b"
    and dm: "dom m \<subseteq> dom (windows app)"
    and so: "sorted_wrt (\<lambda>a b. focus_rank m b \<le> focus_rank m a) ?st"
    using assms(1) unfolding stack_inv_def by blast+
  have mem: "wid \<in> set ?st" using s assms(2) by (simp add: domIff)
  have "set (remove1 wid ?st) = set ?st - {wid}" using d by (rule set_remove1_eq)
  then have set': "set (wid # remove1 wid ?st) = dom (windows app)"
    using mem s by (simp add: insert_absorb)
  have d': "distinct (wid # remove1 wid ?st)"
    using d by (simp add: distinct_remove1)
  have rank_other: "\<And>b. b \<noteq> wid \<Longrightarrow> focus_rank ?m b = focus_rank m b"
    by (simp add: focus_rank_def)
  have rank_le: "\<And>b. focus_rank m b \<le> t"
  proof -
    fix b show "focus_rank m b \<le> t"
    proof (cases "m b")
      case None then show ?thesis by (simp add: focus_rank_def)
    next
      case (Some v) then show ?thesis using lt[OF Some] by (simp add: focus_rank_def)
    qed
  qed
  have so1: "sorted_wrt (\<lambda>a b. focus_rank m b \<le> focus_rank m a) (remove1 wid ?st)"
    using so by (rule sorted_wrt_remove1)
  have so2: "sorted_wrt (\<lambda>a b. focus_rank ?m b \<le> focus_rank ?m a) (remove1 wid ?st)"
  proof (rule sorted_wrt_mono_rel[OF _ so1])
    fix a b
    assume a: "a \<in> set (remove1 wid ?st)" and b: "b \<in> set (remove1 wid ?st)"
      and le: "focus_rank m b \<le> focus_rank m a"
    have "a \<noteq> wid" "b \<noteq> wid" using a b d by simp_all
    then have "focus_rank ?m a = focus_rank m a" "focus_rank ?m b = focus_rank m b"
      by (simp_all add: focus_rank_def)
    then show "focus_rank ?m b \<le> focus_rank ?m a"
      using le by simp
  qed
  have rank_wid: "focus_rank ?m wid = Suc t"
    by (simp add: focus_rank_def)
  have hdr: "\<forall>b \<in> set (remove1 wid ?st). focus_rank ?m b \<le> focus_rank ?m wid"
  proof
    fix b assume "b \<in> set (remove1 wid ?st)"
    then have "b \<noteq> wid" using d by simp
    then have "focus_rank ?m b = focus_rank m b" by (rule rank_other)
    then show "focus_rank ?m b \<le> focus_rank ?m wid"
      using rank_le[of b] by (simp add: rank_wid)
  qed
  have a4: "\<forall>w v. ?m w = Some v \<longrightarrow> v < Suc t"
  proof (intro allI impI)
    fix w v assume h: "?m w = Some v"
    show "v < Suc t"
    proof (cases "w = wid")
      case True then show ?thesis using h by simp
    next
      case False then have "m w = Some v" using h by simp
      then show ?thesis using lt less_Suc_eq by blast
    qed
  qed
  have a5: "\<forall>a b v. ?m a = Some v \<and> ?m b = Some v \<longrightarrow> a = b"
  proof (intro allI impI)
    fix a b v assume h: "?m a = Some v \<and> ?m b = Some v"
    show "a = b"
    proof (cases "a = wid")
      case True
      then have v: "v = t" using h by simp
      show ?thesis
      proof (cases "b = wid")
        case True then show ?thesis using \<open>a = wid\<close> by simp
      next
        case False then have "m b = Some t" using h v by simp
        then show ?thesis using lt by blast
      qed
    next
      case False
      then have ma: "m a = Some v" using h by simp
      show ?thesis
      proof (cases "b = wid")
        case True then have "v = t" using h by simp
        then show ?thesis using ma lt by blast
      next
        case False then have "m b = Some v" using h by simp
        then show ?thesis using ma inj by blast
      qed
    qed
  qed
  have a3: "dom ?m \<subseteq> dom (windows app)" using dm assms(2) by (simp add: domIff)
  have a6: "sorted_wrt (\<lambda>a b. focus_rank ?m b \<le> focus_rank ?m a) (wid # remove1 wid ?st)"
    using so2 hdr by simp
  show ?thesis
    unfolding stack_inv_def stack_fields
    using set' d' a3 a4 a5 a6 by blast
qed

lemma inv_closed:
  assumes "stack_inv app m t" "windows app wid \<noteq> None"
  shows "stack_inv (onDidClose wid app) (m(wid := None)) (Suc t)"
proof -
  let ?st = "activeWindowStack app"
  let ?m = "m(wid := None)"
  have d: "distinct ?st" and s: "set ?st = dom (windows app)"
    and lt: "\<And>w v. m w = Some v \<Longrightarrow> v < t"
    and inj: "\<And>a b v. m a = Some v \<Longrightarrow> m b = Some v \<Longrightarrow> a = b"
    and dm: "dom m \<subseteq> dom (windows app)"
    and so: "sorted_wrt (\<lambda>a b. focus_rank m b \<le> focus_rank m a) ?st"
    using assms(1) unfolding stack_inv_def by blast+
  have "set (remove1 wid ?st) = set ?st - {wid}" using d by (rule set_remove1_eq)
  then have set': "set (remove1 wid ?st) = dom ((windows app)(wid := None))"
    using s by simp
  have d': "distinct (remove1 wid ?st)"
    using d by (simp add: distinct_remove1)
  have so1: "sorted_wrt (\<lambda>a b. focus_rank m b \<le> focus_rank m a) (remove1 wid ?st)"
    using so by (rule sorted_wrt_remove1)
  have so2: "sorted_wrt (\<lambda>a b. focus_rank ?m b \<le> focus_rank ?m a) (remove1 wid ?st)"
  proof (rule sorted_wrt_mono_rel[OF _ so1])
    fix a b
    assume a: "a \<in> set (remove1 wid ?st)" and b: "b \<in> set (remove1 wid ?st)"
      and le: "focus_rank m b \<le> focus_rank m a"
    have "a \<noteq> wid" "b \<noteq> wid" using a b d by simp_all
    then have "focus_rank ?m a = focus_rank m a" "focus_rank ?m b = focus_rank m b"
      by (simp_all add: focus_rank_def)
    then show "focus_rank ?m b \<le> focus_rank ?m a"
      using le by simp
  qed
  have sub: "\<And>w v. ?m w = Some v \<Longrightarrow> m w = Some v"
    by (simp split: if_splits)
  have a4: "\<forall>w v. ?m w = Some v \<longrightarrow> v < Suc t"
    using sub lt less_Suc_eq by blast
  have a5: "\<forall>a b v. ?m a = Some v \<and> ?m b = Some v \<longrightarrow> a = b"
    using sub inj by blast
  have a3: "dom ?m \<subseteq> dom ((windows app)(wid := None))" using dm by auto
  show ?thesis
    unfolding stack_inv_def stack_fields
    using set' d' a3 a4 a5 so2 by blast
qed

lemma inv_step:
  "stack_inv app m t \<Longrightarrow> event_allowed app e \<Longrightarrow> stack_inv (apply_event env app e) (focus_step t m e) (Suc t)"
  by (cases e) (simp_all add: inv_create inv_focus inv_closed)

lemma inv_run:
  "events_allowed env app evs \<Longrightarrow> stack_inv app m t \<Longrightarrow>
   stack_inv (run_events env app evs) (focus_times t m evs) (t + length evs)"
proof (induction evs arbitrary: app m t)
  case Nil
  then show ?case by (simp add: run_events_def)
next
  case (Cons e es)
  have "stack_inv (apply_event env app e) (focus_step t m e) (Suc t)"
    using Cons.prems by (simp add: inv_step)
  moreover have "events_allowed env (apply_event env app e) es" using Cons.prems by simp
  ultimately have "stack_inv (run_events env (apply_event env app e) es) (focus_times (Suc t) (focus_step t m e) es) (Suc t + length es)"
    by (rule Cons.IH[rotated])
  then show ?case by (simp add: run_events_def focus_times_Cons del: focus_times.simps)
qed

lemma inv_initial: "stack_inv initialApplication Map.empty 0"
  by (simp add: stack_inv_def initialApplication_def)

lemma inv_head:
  assumes "stack_inv app m t" "m w = Some v"
  shows "activeWindowStack app \<noteq> [] \<and> (\<exists>v0. m (activeWindowStack app ! 0) = Some v0 \<and> v \<le> v0 \<and> (v = v0 \<longrightarrow> w = activeWindowStack app ! 0))"
proof -
  have s: "set (activeWindowStack app) = dom (windows app)"
    and inj: "\<And>a b v. m a = Some v \<Longrightarrow> m b = Some v \<Longrightarrow> a = b"
    and dm: "dom m \<subseteq> dom (windows app)"
    and so: "sorted_wrt (\<lambda>a b. focus_rank m b \<le> focus_rank m a) (activeWindowStack app)"
    using assms(1) by (auto simp: stack_inv_def)
  have mem: "w \<in> set (activeWindowStack app)" using s dm assms(2) by auto
  then obtain h tl where st: "activeWindowStack app = h # tl" by (cases "activeWindowStack app") auto
  have "focus_rank m w \<le> focus_rank m h"
    using so mem st by auto
  then obtain v0 where "m h = Some v0" "v \<le> v0"
    using assms(2) by (auto simp: focus_rank_def split: option.splits)
  then show ?thesis using st inj[OF assms(2)] by auto
qed

text \<open>
  C5. After every run of create, focus and close events that Electron can deliver, the
  activation stack holds exactly the ids of the registered windows, each once, and if
  any registered window has been focused, the one focused last is at index 0.
\<close>

theorem activeWindowStack_invariant:
  assumes "events_allowed env initialApplication evs"
  shows "set (activeWindowStack (run_events env initialApplication evs))
           = dom (windows (run_events env initialApplication evs))
       \<and> distinct (activeWindowStack (run_events env initialApplication evs))
       \<and> dom (last_focused evs) \<subseteq> dom (windows (run_events env initialApplication evs))
       \<and> (\<forall>w v. last_focused evs w = Some v \<longrightarrow>
            activeWindowStack (run_events env initialApplication evs) \<noteq> []
          \<and> (\<exists>v0. last_focused evs (activeWindowStack (run_events env initialApplication evs) ! 0) = Some v0
                \<and> v \<le> v0 \<and> (v = v0 \<longrightarrow> w = activeWindowStack (run_events env initialApplication evs) ! 0)))"
proof -
  have inv: "stack_inv (run_events env initialApplication evs) (last_focused evs) (0 + length evs)"
    unfolding last_focused_def using assms inv_initial by (rule inv_run)
  show ?thesis
  proof (intro conjI allI impI)
    show "set (activeWindowStack (run_events env initialApplication evs))
           = dom (windows (run_events env initialApplication evs))"
      using inv by (simp add: stack_inv_def)
    show "distinct (activeWindowStack (run_events env initialApplication evs))"
      using inv by (simp add: stack_inv_def)
    show "dom (last_focused evs) \<subseteq> dom (windows (run_events env initialApplication evs))"
      using inv by (simp add: stack_inv_def)
  next
    fix w v assume f: "last_focused evs w = Some v"
    show "activeWindowStack (run_events env initialApplication evs) \<noteq> []"
      using inv_head[OF inv f] by blast
    show "\<exists>v0. last_focused evs (activeWindowStack (run_events env initialApplication evs) ! 0) = Some v0
                \<and> v \<le> v0 \<and> (v = v0 \<longrightarrow> w = activeWindowStack (run_events env initialApplication evs) ! 0)"
      using inv_head[OF inv f] by blast
  qed
qed


theorem activeWindowStack_invariant_witness:
  "events_allowed plain_env initialApplication example_events
   \<and> activeWindowStack (run_events plain_env initialApplication example_events) = [2]
   \<and> dom (windows (run_events plain_env initialApplication example_events)) = {2}
   \<and> last_focused example_events 2 = Some 2"
proof -
  have h: "events_allowed plain_env initialApplication example_events"
    by (simp add: example_events_def initialApplication_def createWindow_def onFocus_def
        onDidClose_def inputs_for_def avoidOverlap_def Let_def)
  have st: "activeWindowStack (run_events plain_env initialApplication example_events) = [2]"
    by (simp add: run_events_def example_events_def initialApplication_def createWindow_def
        onFocus_def onDidClose_def inputs_for_def avoidOverlap_def Let_def)
  have lf: "last_focused example_events 2 = Some 2"
    by (simp add: last_focused_def example_events_def inputs_for_def)
  have "set (activeWindowStack (run_events plain_env initialApplication example_events))
      = dom (windows (run_events plain_env initialApplication example_events))"
    using activeWindowStack_invariant[OF h] by blast
  then have "dom (windows (run_events plain_env initialApplication example_events)) = {2}"
    using st by simp
  then show ?thesis using h st lf by simp
qed

subsection \<open>Restart\<close>

lemma restart_vetoed:
  "windows app wid = Some wrapper \<Longrightarrow> restart env inp cwd Vetoed wid app = app\<lparr>restarting := True\<rparr>"
  by (simp add: restart_def Let_def)

text \<open>
  When the window does close, the flag is reset once \<^verbatim>\<open>handleMainCommand\<close> has
  returned, which it does not before the backend port is known.
\<close>

lemma restart_closed_flag:
  assumes "windows app wid = Some wrapper"
  shows "restarting (restart env inp cwd (WindowClosed report) wid app) = (backendPort app = None)"
  using assms
  by (simp add: restart_def handleMainCommand_def returned_def openWindowWithWorkspace_def
      loadWhenPortKnown_def reuseOrCreateWindow_def createWindow_def saveWindowState_def
      onDidClose_def disposeWindowStateListeners_def split_beta Let_def
      split: option.split)

lemma one_window_fields:
  "windows one_window 1 \<noteq> None" "restarting one_window = False" "calls one_window = []"
  "activeWindowStack one_window = [1]"
  by (simp_all add: one_window_def createWindow_def initialApplication_def inputs_for_def Let_def)

text \<open>
  C1. A vetoed restart of the only window starts no relaunch (no window is created, no
  URL loaded), but it leaves \<open>restarting\<close> set: when that window is closed later,
  \<^verbatim>\<open>onWindowAllClosed\<close> no longer quits the application, as it does without the
  restart attempt.
\<close>

theorem restart_vetoed_keeps_flag:
  "windows one_window 1 \<noteq> None
   \<and> restart plain_env (inputs_for 2) ''/home'' Vetoed 1 one_window = one_window\<lparr>restarting := True\<rparr>
   \<and> restarting (restart plain_env (inputs_for 2) ''/home'' Vetoed 1 one_window) = True
   \<and> calls (restart plain_env (inputs_for 2) ''/home'' Vetoed 1 one_window) = []
   \<and> calls (onWindowAllClosed (onDidClose 1 (restart plain_env (inputs_for 2) ''/home'' Vetoed 1 one_window))) = []
   \<and> calls (onWindowAllClosed (onDidClose 1 one_window)) = [AppQuit]"
proof -
  obtain wrapper where w: "windows one_window 1 = Some wrapper"
    using one_window_fields(1) by blast
  have r: "restart plain_env (inputs_for 2) ''/home'' Vetoed 1 one_window = one_window\<lparr>restarting := True\<rparr>"
    using w by (rule restart_vetoed)
  show ?thesis
    unfolding r using one_window_fields
    by (simp add: onWindowAllClosed_def onDidClose_def requestStop_def)
qed

subsection \<open>Reply channels\<close>

lemma digit_char_inj: "a < 10 \<Longrightarrow> b < 10 \<Longrightarrow> digit_char a = digit_char b \<Longrightarrow> a = b"
proof -
  assume a: "a < 10" and b: "b < 10" and e: "digit_char a = digit_char b"
  have d: "distinct ''0123456789''" by simp
  have "a < length ''0123456789''" "b < length ''0123456789''" using a b by simp_all
  then show "a = b" using e d unfolding digit_char_def by (simp only: nth_eq_iff_index_eq)
qed

lemma decimal_nonempty: "decimal n \<noteq> []"
  by (subst decimal.simps) simp

lemma decimal_inj: "decimal n = decimal m \<Longrightarrow> n = m"
proof (induction n arbitrary: m rule: decimal.induct)
  case (1 n)
  show ?case
  proof (cases "n < 10")
    case True
    then have n1: "decimal n = [digit_char n]" by (subst decimal.simps) simp
    show ?thesis
    proof (cases "m < 10")
      case True
      then have "decimal m = [digit_char m]" by (subst decimal.simps) simp
      then show ?thesis using n1 1(2) \<open>n < 10\<close> True digit_char_inj by simp
    next
      case False
      then have "decimal m = decimal (m div 10) @ [digit_char (m mod 10)]" by (subst decimal.simps) simp
      then have "decimal (m div 10) = []" using n1 1(2) by simp
      then show ?thesis using decimal_nonempty by blast
    qed
  next
    case False
    then have n2: "decimal n = decimal (n div 10) @ [digit_char (n mod 10)]" by (subst decimal.simps) simp
    show ?thesis
    proof (cases "m < 10")
      case True
      then have "decimal m = [digit_char m]" by (subst decimal.simps) simp
      then have "decimal (n div 10) = []" using n2 1(2) by simp
      then show ?thesis using decimal_nonempty by blast
    next
      case m: False
      then have "decimal m = decimal (m div 10) @ [digit_char (m mod 10)]" by (subst decimal.simps) simp
      then have e: "decimal (n div 10) = decimal (m div 10)" "digit_char (n mod 10) = digit_char (m mod 10)"
        using n2 1(2) by simp_all
      have "n div 10 = m div 10" using 1(1)[OF False e(1)] .
      moreover have "n mod 10 = m mod 10" using e(2) by (intro digit_char_inj) simp_all
      ultimately show ?thesis by (metis div_mult_mod_eq)
    qed
  qed
qed

lemma js_increment_fresh: "n < 2 ^ 53 \<Longrightarrow> js_increment n \<noteq> n"
  by (simp add: js_increment_def)

lemma requestClose_fields:
  "confirmChannel (fst (requestClose wc r ipc)) = ''confirm-'' @ decimal (nextReplyChannel ipc)"
  "cancelChannel (fst (requestClose wc r ipc)) = ''cancel-'' @ decimal (nextReplyChannel ipc)"
  "resolved (fst (requestClose wc r ipc)) = None"
  "nextReplyChannel (snd (requestClose wc r ipc)) = js_increment (nextReplyChannel ipc)"
  "listeners (snd (requestClose wc r ipc))
     = add_mset (cancelChannel (fst (requestClose wc r ipc)))
         (add_mset (confirmChannel (fst (requestClose wc r ipc))) (listeners ipc))"
  "sent (snd (requestClose wc r ipc))
     = sent ipc @ [(wc, REQUEST_CLOSE r (confirmChannel (fst (requestClose wc r ipc)))
                          (cancelChannel (fst (requestClose wc r ipc))))]"
  by (simp_all add: requestClose_def Let_def)

lemma requestSecondaryClose_fields:
  "confirmChannel (fst (requestSecondaryClose wc nm ipc)) = ''confirm-'' @ decimal (nextReplyChannel ipc)"
  "cancelChannel (fst (requestSecondaryClose wc nm ipc)) = ''cancel-'' @ decimal (nextReplyChannel ipc)"
  "resolved (fst (requestSecondaryClose wc nm ipc)) = None"
  "nextReplyChannel (snd (requestSecondaryClose wc nm ipc)) = js_increment (nextReplyChannel ipc)"
  "listeners (snd (requestSecondaryClose wc nm ipc))
     = add_mset (cancelChannel (fst (requestSecondaryClose wc nm ipc)))
         (add_mset (confirmChannel (fst (requestSecondaryClose wc nm ipc))) (listeners ipc))"
  by (simp_all add: requestSecondaryClose_def Let_def)

lemma just_requested_close: "just_requested ipc (requestClose wc r ipc)"
  by (simp add: just_requested_def requestClose_fields)

lemma just_requested_secondary: "just_requested ipc (requestSecondaryClose wc nm ipc)"
  by (simp add: just_requested_def requestSecondaryClose_fields)

lemma confirm_not_cancel: "''confirm-'' @ a \<noteq> ''cancel-'' @ b"
  by simp

lemma receive_confirm:
  assumes "just_requested ipc st"
  shows "resolved (fst (receive (confirmChannel (fst st)) st)) = Some True"
    and "listeners (snd (receive (confirmChannel (fst st)) st)) = listeners ipc"
  using assms
  by (simp_all add: just_requested_def receive_def resolve_def dispose_def Let_def)

lemma receive_cancel:
  assumes "just_requested ipc st"
  shows "resolved (fst (receive (cancelChannel (fst st)) st)) = Some False"
    and "listeners (snd (receive (cancelChannel (fst st)) st)) = listeners ipc"
  using assms
  by (simp_all add: just_requested_def receive_def resolve_def dispose_def Let_def)

lemma receive_settled:
  assumes "resolved (fst st) = Some v"
  shows "resolved (fst (receive ch st)) = Some v" "snd (receive ch st) = snd st"
  using assms by (simp_all add: receive_def resolve_def Let_def)


lemma channels_differ:
  assumes "just_requested ipc st" "just_requested ipc' st'" "nextReplyChannel ipc' \<noteq> nextReplyChannel ipc"
  shows "{confirmChannel (fst st'), cancelChannel (fst st')} \<inter> {confirmChannel (fst st), cancelChannel (fst st)} = {}"
proof -
  have "decimal (nextReplyChannel ipc') \<noteq> decimal (nextReplyChannel ipc)"
    using assms(3) decimal_inj by blast
  then show ?thesis
    using assms(1,2) by (simp add: just_requested_def)
qed

text \<open>
  C9. A request made by \<^verbatim>\<open>requestClose\<close> or \<^verbatim>\<open>requestSecondaryClose\<close> (while the
  channel counter is below \<open>2^53\<close>) gets a confirm and a cancel channel named after the
  counter, different from each other and from the channels of every request made at
  another value of the counter, which the request itself advances; a message on the
  confirm channel resolves the promise to true, one on the cancel channel to false, either
  removes both listeners, and no later message changes the outcome.
\<close>

theorem close_request_protocol:
  assumes "nextReplyChannel ipc < 2 ^ 53"
    and "st = requestClose wc stopReason ipc \<or> st = requestSecondaryClose mainWindow secondaryName ipc"
  shows "confirmChannel (fst st) = ''confirm-'' @ decimal (nextReplyChannel ipc)
       \<and> cancelChannel (fst st) = ''cancel-'' @ decimal (nextReplyChannel ipc)
       \<and> confirmChannel (fst st) \<noteq> cancelChannel (fst st)
       \<and> nextReplyChannel (snd st) = nextReplyChannel ipc + 1
       \<and> (\<forall>ipc' wc' r' nm'. nextReplyChannel ipc' \<noteq> nextReplyChannel ipc \<longrightarrow>
            {confirmChannel (fst (requestClose wc' r' ipc')), cancelChannel (fst (requestClose wc' r' ipc'))}
              \<inter> {confirmChannel (fst st), cancelChannel (fst st)} = {}
          \<and> {confirmChannel (fst (requestSecondaryClose wc' nm' ipc')),
               cancelChannel (fst (requestSecondaryClose wc' nm' ipc'))}
              \<inter> {confirmChannel (fst st), cancelChannel (fst st)} = {})
       \<and> resolved (fst st) = None
       \<and> listeners (snd st) = add_mset (cancelChannel (fst st)) (add_mset (confirmChannel (fst st)) (listeners ipc))
       \<and> resolved (fst (receive (confirmChannel (fst st)) st)) = Some True
       \<and> listeners (snd (receive (confirmChannel (fst st)) st)) = listeners ipc
       \<and> resolved (fst (receive (cancelChannel (fst st)) st)) = Some False
       \<and> listeners (snd (receive (cancelChannel (fst st)) st)) = listeners ipc
       \<and> (\<forall>ch. receive ch (receive (confirmChannel (fst st)) st) = receive (confirmChannel (fst st)) st
              \<or> ch \<in># listeners ipc)
       \<and> (\<forall>ch. receive ch (receive (cancelChannel (fst st)) st) = receive (cancelChannel (fst st)) st
              \<or> ch \<in># listeners ipc)"
proof -
  have j: "just_requested ipc st"
    using assms(2) just_requested_close just_requested_secondary by blast
  have names: "confirmChannel (fst st) = ''confirm-'' @ decimal (nextReplyChannel ipc)"
    "cancelChannel (fst st) = ''cancel-'' @ decimal (nextReplyChannel ipc)"
    "resolved (fst st) = None"
    "listeners (snd st) = add_mset (cancelChannel (fst st)) (add_mset (confirmChannel (fst st)) (listeners ipc))"
    using j by (simp_all add: just_requested_def)
  have ne: "confirmChannel (fst st) \<noteq> cancelChannel (fst st)"
    by (simp add: names)
  have nxt: "nextReplyChannel (snd st) = nextReplyChannel ipc + 1"
    using j assms(1) by (simp add: just_requested_def js_increment_def)
  have fresh: "\<forall>ipc' wc' r' nm'. nextReplyChannel ipc' \<noteq> nextReplyChannel ipc \<longrightarrow>
            {confirmChannel (fst (requestClose wc' r' ipc')), cancelChannel (fst (requestClose wc' r' ipc'))}
              \<inter> {confirmChannel (fst st), cancelChannel (fst st)} = {}
          \<and> {confirmChannel (fst (requestSecondaryClose wc' nm' ipc')),
               cancelChannel (fst (requestSecondaryClose wc' nm' ipc'))}
              \<inter> {confirmChannel (fst st), cancelChannel (fst st)} = {}"
  proof (intro allI impI conjI)
    fix ipc' :: ipcMain and wc' r' nm'
    assume d: "nextReplyChannel ipc' \<noteq> nextReplyChannel ipc"
    show "{confirmChannel (fst (requestClose wc' r' ipc')), cancelChannel (fst (requestClose wc' r' ipc'))}
              \<inter> {confirmChannel (fst st), cancelChannel (fst st)} = {}"
      using j just_requested_close d by (rule channels_differ)
    show "{confirmChannel (fst (requestSecondaryClose wc' nm' ipc')),
               cancelChannel (fst (requestSecondaryClose wc' nm' ipc'))}
              \<inter> {confirmChannel (fst st), cancelChannel (fst st)} = {}"
      using j just_requested_secondary d by (rule channels_differ)
  qed
  have rc: "resolved (fst (receive (confirmChannel (fst st)) st)) = Some True"
    "listeners (snd (receive (confirmChannel (fst st)) st)) = listeners ipc"
    using j by (rule receive_confirm)+
  have rx: "resolved (fst (receive (cancelChannel (fst st)) st)) = Some False"
    "listeners (snd (receive (cancelChannel (fst st)) st)) = listeners ipc"
    using j by (rule receive_cancel)+
  have again: "receive ch (receive c st) = receive c st \<or> ch \<in># listeners ipc"
    if c: "listeners (snd (receive c st)) = listeners ipc" for ch c
  proof (cases "ch \<in># listeners ipc")
    case True
    then show ?thesis by simp
  next
    case False
    then have "receive ch (receive c st) = (fst (receive c st), snd (receive c st))"
      using c by (simp add: receive_def[of ch] Let_def)
    then show ?thesis by simp
  qed
  have ag1: "\<forall>ch. receive ch (receive (confirmChannel (fst st)) st) = receive (confirmChannel (fst st)) st
              \<or> ch \<in># listeners ipc"
    using again[OF rc(2)] by (rule allI)
  have ag2: "\<forall>ch. receive ch (receive (cancelChannel (fst st)) st) = receive (cancelChannel (fst st)) st
              \<or> ch \<in># listeners ipc"
    using again[OF rx(2)] by (rule allI)
  show ?thesis
    by (intro conjI names ne nxt fresh rc rx ag1 ag2)
qed

theorem close_request_protocol_witness:
  "nextReplyChannel fresh_ipc < 2 ^ 53
   \<and> confirmChannel (fst (requestClose 1 Restart fresh_ipc)) = ''confirm-0''
   \<and> cancelChannel (fst (requestClose 1 Restart fresh_ipc)) = ''cancel-0''
   \<and> nextReplyChannel (snd (requestClose 1 Restart fresh_ipc)) = 1
   \<and> resolved (fst (receive (confirmChannel (fst (requestClose 1 Restart fresh_ipc)))
         (requestClose 1 Restart fresh_ipc))) = Some True
   \<and> listeners (snd (receive (confirmChannel (fst (requestClose 1 Restart fresh_ipc)))
         (requestClose 1 Restart fresh_ipc))) = {#}
   \<and> resolved (fst (receive (cancelChannel (fst (requestClose 1 Restart fresh_ipc)))
         (requestClose 1 Restart fresh_ipc))) = Some False
   \<and> listeners (snd (receive (cancelChannel (fst (requestClose 1 Restart fresh_ipc)))
         (requestClose 1 Restart fresh_ipc))) = {#}"
proof -
  have h: "nextReplyChannel fresh_ipc < 2 ^ 53"
    by (simp add: fresh_ipc_def)
  have d: "decimal 0 = ''0''"
    by (simp add: decimal.simps digit_char_def)
  have l: "listeners fresh_ipc = {#}" "nextReplyChannel fresh_ipc = 0"
    by (simp_all add: fresh_ipc_def)
  have p: "requestClose 1 Restart fresh_ipc = requestClose 1 Restart fresh_ipc
      \<or> requestClose 1 Restart fresh_ipc = requestSecondaryClose 0 [] fresh_ipc"
    by simp
  note t = close_request_protocol[OF h p]
  have names: "confirmChannel (fst (requestClose 1 Restart fresh_ipc)) = ''confirm-0''"
    "cancelChannel (fst (requestClose 1 Restart fresh_ipc)) = ''cancel-0''"
    "nextReplyChannel (snd (requestClose 1 Restart fresh_ipc)) = 1"
    using t by (simp_all add: l d)
  have r1: "resolved (fst (receive (confirmChannel (fst (requestClose 1 Restart fresh_ipc)))
         (requestClose 1 Restart fresh_ipc))) = Some True"
    using t by (elim conjE) assumption
  have r2: "listeners (snd (receive (confirmChannel (fst (requestClose 1 Restart fresh_ipc)))
         (requestClose 1 Restart fresh_ipc))) = listeners fresh_ipc"
    using t by (elim conjE) assumption
  have r3: "resolved (fst (receive (cancelChannel (fst (requestClose 1 Restart fresh_ipc)))
         (requestClose 1 Restart fresh_ipc))) = Some False"
    using t by (elim conjE) assumption
  have r4: "listeners (snd (receive (cancelChannel (fst (requestClose 1 Restart fresh_ipc)))
         (requestClose 1 Restart fresh_ipc))) = listeners fresh_ipc"
    using t by (elim conjE) assumption
  show ?thesis
    using r1 r2 r3 r4 by (intro conjI h names) (simp_all only: l(1))
qed

subsection \<open>Worker termination\<close>

lemma onQuit_swallows_ESRCH:
  "process_kill (int p) = Some (Some ''ESRCH'') \<Longrightarrow>
   thrown (onQuit process_kill \<lparr>pid = Some p, exitCode = None, signalCode = None\<rparr>) = None"
  by (simp add: onQuit_def)

lemma onQuit_rethrows:
  "process_kill (int p) = Some e \<Longrightarrow> e \<noteq> Some ''ESRCH'' \<Longrightarrow> p \<noteq> 0 \<Longrightarrow>
   thrown (onQuit process_kill \<lparr>pid = Some p, exitCode = None, signalCode = None\<rparr>) = Some e"
  by (simp add: onQuit_def)

lemma onQuit_exited:
  "exitCode b \<noteq> None \<or> signalCode b \<noteq> None \<Longrightarrow>
   onQuit process_kill b = \<lparr>kill_calls = [], thrown = None\<rparr>"
  by (auto simp add: onQuit_def)

lemma onQuit_targets_one_process:
  "k \<in> set (kill_calls (onQuit process_kill b)) \<Longrightarrow> \<exists>p. pid b = Some p \<and> k = int p \<and> kill_target k = OneProcess p"
  by (auto simp add: onQuit_def kill_target_def split: if_splits option.splits)

text \<open>
  C3. With a running backend of pid 4242, forked detached, the quit handler calls
  \<^verbatim>\<open>process.kill(4242)\<close>, which signals that one process; the process group would be
  addressed by \<open>-4242\<close>. An \<^verbatim>\<open>ESRCH\<close> error is swallowed, another one is thrown
  again.
\<close>

theorem onQuit_signals_process_only:
  "getForkOptions_detached ''linux''
   \<and> kill_calls (onQuit kill_delivers running_backend) = [4242]
   \<and> kill_target 4242 = OneProcess 4242
   \<and> kill_target (- 4242) = ProcessGroup 4242
   \<and> thrown (onQuit kill_delivers running_backend) = None
   \<and> thrown (onQuit (kill_fails ''ESRCH'') running_backend) = None
   \<and> thrown (onQuit (kill_fails ''EPERM'') running_backend) = Some (Some ''EPERM'')"
  by (simp add: getForkOptions_detached_def onQuit_def kill_delivers_def kill_fails_def
      running_backend_def kill_target_def)

subsection \<open>The splash race\<close>

lemma transition_fields:
  "clock (showWindowAndCloseSplashScreen s) = clock s"
  "minTime (showWindowAndCloseSplashScreen s) = cancel (minTime s)"
  "maxTime (showWindowAndCloseSplashScreen s) = cancel (maxTime s)"
  "waiting (showWindowAndCloseSplashScreen s) = waiting s"
  "visible (showWindowAndCloseSplashScreen s) = True"
  "closed_at (showWindowAndCloseSplashScreen s) = closed_at s @ [clock s]"
  "shown_at (showWindowAndCloseSplashScreen s) = (if visible s then shown_at s else shown_at s @ [clock s])"
  by (simp_all add: showWindowAndCloseSplashScreen_def Let_def)

lemma cancel_simps:
  "cancel Pending = Rejected" "cancel Fulfilled = Fulfilled" "cancel Rejected = Rejected"
  "cancel p \<noteq> Pending" "(cancel p = Fulfilled) = (p = Fulfilled)"
  by (simp_all add: cancel_def)

lemma splash_inv_transition:
  assumes "splash_inv m M s" "min m M \<le> clock s"
  shows "splash_inv m M (showWindowAndCloseSplashScreen s)"
  using assms unfolding splash_inv_def transition_fields
  by (auto simp: cancel_simps)

lemma splash_inv_transitions:
  assumes "splash_inv m M s" "min m M \<le> clock s"
  shows "splash_inv m M ((showWindowAndCloseSplashScreen ^^ k) s)
       \<and> clock ((showWindowAndCloseSplashScreen ^^ k) s) = clock s"
proof (induction k)
  case 0
  then show ?case using assms by simp
next
  case (Suc k)
  then show ?case using assms(2) by (simp add: splash_inv_transition transition_fields)
qed

lemma splash_inv_clock:
  "splash_inv m M s \<Longrightarrow> clock s \<le> c \<Longrightarrow> splash_inv m M (s\<lparr>clock := c\<rparr>)"
  by (auto simp: splash_inv_def)

lemma splash_inv_onReady: "splash_inv m M s \<Longrightarrow> splash_inv m M (onReady s)"
proof (cases "minTime s")
  case Pending
  assume "splash_inv m M s"
  then show ?thesis using Pending by (simp add: onReady_def splash_inv_def)
next
  case Fulfilled
  assume i: "splash_inv m M s"
  then have "min m M \<le> clock s" using Fulfilled by (auto simp: splash_inv_def min_le_iff_disj)
  then show ?thesis using i Fulfilled by (simp add: onReady_def splash_inv_transition)
next
  case Rejected
  assume "splash_inv m M s"
  then show ?thesis using Rejected by (simp add: onReady_def)
qed

lemma splash_inv_fire_min:
  assumes "splash_inv m M s" "m \<le> clock s"
  shows "splash_inv m M (fire_min s)"
proof (cases "minTime s = Pending")
  case True
  let ?s = "s\<lparr>minTime := Fulfilled, waiting := 0\<rparr>"
  have "splash_inv m M ?s" using assms True by (auto simp: splash_inv_def)
  moreover have "min m M \<le> clock ?s" using assms(2) by (simp add: min_le_iff_disj)
  ultimately have "splash_inv m M ((showWindowAndCloseSplashScreen ^^ waiting s) ?s)"
    using splash_inv_transitions by blast
  then show ?thesis using True by (simp add: fire_min_def)
next
  case False
  then show ?thesis using assms by (simp add: fire_min_def)
qed

lemma splash_inv_fire_max:
  assumes "splash_inv m M s" "M \<le> clock s"
  shows "splash_inv m M (fire_max s)"
proof (cases "maxTime s = Pending")
  case True
  let ?s = "s\<lparr>maxTime := Fulfilled\<rparr>"
  have "splash_inv m M ?s" using assms True by (auto simp: splash_inv_def)
  moreover have "min m M \<le> clock ?s" using assms(2) by (simp add: min_le_iff_disj)
  ultimately have "splash_inv m M (showWindowAndCloseSplashScreen ?s)"
    by (rule splash_inv_transition)
  then show ?thesis using True by (simp add: fire_max_def)
next
  case False
  then show ?thesis using assms by (simp add: fire_max_def)
qed

lemma splash_inv_fire_at_min: "splash_inv m M s \<Longrightarrow> splash_inv m M (fire_at m fire_min t s)"
  by (simp add: fire_at_def splash_inv_fire_min splash_inv_clock)

lemma splash_inv_fire_at_max: "splash_inv m M s \<Longrightarrow> splash_inv m M (fire_at M fire_max t s)"
  by (simp add: fire_at_def splash_inv_fire_max splash_inv_clock)

lemma splash_inv_advance: "splash_inv m M s \<Longrightarrow> splash_inv m M (advance m M t s)"
  by (simp add: advance_def Let_def splash_inv_fire_at_min splash_inv_fire_at_max splash_inv_clock)

lemma splash_inv_step: "splash_inv m M s \<Longrightarrow> splash_inv m M (splash_step m M s e)"
  by (cases e) (simp_all add: splash_inv_advance splash_inv_onReady)

lemma splash_inv_run: "splash_inv m M s \<Longrightarrow> splash_inv m M (splash_run m M s evs)"
  unfolding splash_run_def by (induction evs arbitrary: s) (simp_all add: splash_inv_step)

lemma splash_inv_start: "splash_inv m M (splash_start v)"
  by (simp add: splash_inv_def splash_start_def)


lemma live_transition: "splash_live M s \<Longrightarrow> splash_live M (showWindowAndCloseSplashScreen s)"
  unfolding splash_live_def transition_fields
  by (cases "closed_at s") (auto simp: cancel_simps)

lemma live_transitions: "splash_live M s \<Longrightarrow> splash_live M ((showWindowAndCloseSplashScreen ^^ k) s)"
  by (induction k) (simp_all add: live_transition)

lemma live_onReady: "splash_live M s \<Longrightarrow> splash_live M (onReady s)"
  by (cases "minTime s") (simp_all add: onReady_def live_transition, simp add: splash_live_def)

lemma live_fire_min: "splash_live M s \<Longrightarrow> splash_live M (fire_min s)"
proof -
  assume l: "splash_live M s"
  then have "splash_live M (s\<lparr>minTime := Fulfilled, waiting := 0\<rparr>)"
    by (simp add: splash_live_def)
  then show ?thesis using l by (simp add: fire_min_def live_transitions)
qed

lemma live_clock:
  "splash_live M s \<Longrightarrow> (maxTime s = Pending \<longrightarrow> c \<le> M) \<Longrightarrow> splash_live M (s\<lparr>clock := c\<rparr>)"
  by (simp add: splash_live_def)

lemma live_fire_max:
  assumes "splash_live M s"
  shows "splash_live M (fire_max (s\<lparr>clock := max (clock s) M\<rparr>))"
proof (cases "maxTime s = Pending")
  case True
  then have c: "max (clock s) M = M" "closed_at s = []" using assms by (auto simp: splash_live_def)
  show ?thesis
    using True c by (simp add: fire_max_def splash_live_def transition_fields cancel_simps)
next
  case False
  then show ?thesis using assms by (simp add: fire_max_def live_clock)
qed

lemma fired_transition: "maxTime s \<noteq> Pending \<Longrightarrow> maxTime ((showWindowAndCloseSplashScreen ^^ k) s) \<noteq> Pending"
  by (induction k) (simp_all add: transition_fields cancel_simps)

lemma fired_fire_min: "maxTime s \<noteq> Pending \<Longrightarrow> maxTime (fire_min s) \<noteq> Pending"
  by (simp add: fire_min_def fired_transition)

lemma fired_fire_max: "maxTime (fire_max s) \<noteq> Pending"
  by (simp add: fire_max_def transition_fields cancel_simps)

lemma fired_fire_at_min: "maxTime s \<noteq> Pending \<Longrightarrow> maxTime (fire_at m fire_min t s) \<noteq> Pending"
  by (simp add: fire_at_def fired_fire_min)

lemma fired_fire_at_max: "maxTime s \<noteq> Pending \<or> M \<le> t \<Longrightarrow> maxTime (fire_at M fire_max t s) \<noteq> Pending"
  by (auto simp add: fire_at_def fire_max_def transition_fields cancel_simps)

lemma fired_advance: "maxTime s \<noteq> Pending \<or> M \<le> t \<Longrightarrow> maxTime (advance m M t s) \<noteq> Pending"
proof -
  assume a: "maxTime s \<noteq> Pending \<or> M \<le> t"
  have "maxTime (fire_at m fire_min t s) \<noteq> Pending \<or> M \<le> t"
    using a fired_fire_at_min[of s m t] by blast
  then have 1: "maxTime (fire_at M fire_max t (fire_at m fire_min t s)) \<noteq> Pending"
    by (rule fired_fire_at_max)
  have "maxTime (fire_at M fire_max t s) \<noteq> Pending"
    using a by (rule fired_fire_at_max)
  then have 2: "maxTime (fire_at m fire_min t (fire_at M fire_max t s)) \<noteq> Pending"
    by (rule fired_fire_at_min)
  show ?thesis using 1 2 by (simp add: advance_def Let_def)
qed

lemma fired_onReady: "maxTime s \<noteq> Pending \<Longrightarrow> maxTime (onReady s) \<noteq> Pending"
  by (cases "minTime s") (simp_all add: onReady_def transition_fields cancel_simps)

lemma fired_step: "maxTime s \<noteq> Pending \<Longrightarrow> maxTime (splash_step m M s e) \<noteq> Pending"
  by (cases e) (simp_all add: fired_advance fired_onReady)

lemma fired_run: "maxTime s \<noteq> Pending \<Longrightarrow> maxTime (splash_run m M s evs) \<noteq> Pending"
  unfolding splash_run_def by (induction evs arbitrary: s) (simp_all add: fired_step)

lemma fired_run_tick:
  "Tick t \<in> set evs \<Longrightarrow> M \<le> t \<Longrightarrow> maxTime (splash_run m M s evs) \<noteq> Pending"
proof (induction evs arbitrary: s)
  case Nil
  then show ?case by simp
next
  case (Cons e evs)
  show ?case
  proof (cases "e = Tick t")
    case True
    then have "maxTime (splash_step m M s e) \<noteq> Pending"
      using Cons.prems(2) by (simp add: fired_advance)
    then show ?thesis using fired_run[of "splash_step m M s e" m M evs] by (simp add: splash_run_def)
  next
    case False
    then have "Tick t \<in> set evs" using Cons.prems(1) by simp
    then show ?thesis using Cons.IH[of "splash_step m M s e"] Cons.prems(2) by (simp add: splash_run_def)
  qed
qed

lemma live_advance: "splash_live M s \<Longrightarrow> splash_live M (advance m M t s)"
proof -
  assume l: "splash_live M s"
  show ?thesis
  proof (cases "m \<le> M")
    case True
    have "splash_live M (s\<lparr>clock := max (clock s) m\<rparr>)"
      using l True by (intro live_clock) (auto simp: splash_live_def)
    then have "splash_live M (fire_min (s\<lparr>clock := max (clock s) m\<rparr>))"
      by (rule live_fire_min)
    then have l1: "splash_live M (fire_at m fire_min t s)"
      using l by (simp add: fire_at_def)
    have l2: "splash_live M (fire_at M fire_max t (fire_at m fire_min t s))"
      using l1 by (simp add: fire_at_def live_fire_max)
    have p: "maxTime (fire_at M fire_max t (fire_at m fire_min t s)) = Pending \<longrightarrow> max (clock (fire_at M fire_max t (fire_at m fire_min t s))) t \<le> M"
      using l2 fired_fire_at_max[of "fire_at m fire_min t s" M t] by (auto simp: splash_live_def)
    show ?thesis using True l2 p by (simp add: advance_def Let_def live_clock)
  next
    case False
    have l1: "splash_live M (fire_at M fire_max t s)"
      using l by (simp add: fire_at_def live_fire_max)
    have np: "m \<le> t \<Longrightarrow> maxTime (fire_at M fire_max t s) \<noteq> Pending"
      using False fired_fire_at_max[of s M t] by simp
    have l2: "splash_live M (fire_at m fire_min t (fire_at M fire_max t s))"
    proof (cases "m \<le> t")
      case True
      let ?s1 = "fire_at M fire_max t s"
      have "splash_live M (?s1\<lparr>clock := max (clock ?s1) m\<rparr>)"
        using l1 np[OF True] by (intro live_clock) simp_all
      then have "splash_live M (fire_min (?s1\<lparr>clock := max (clock ?s1) m\<rparr>))"
        by (rule live_fire_min)
      then show ?thesis using True by (simp add: fire_at_def)
    next
      case False
      then show ?thesis using l1 by (simp add: fire_at_def)
    qed
    have p: "maxTime (fire_at m fire_min t (fire_at M fire_max t s)) = Pending \<longrightarrow> max (clock (fire_at m fire_min t (fire_at M fire_max t s))) t \<le> M"
      using l2 fired_fire_at_max[of s M t] fired_fire_at_min[of "fire_at M fire_max t s" m t]
      by (auto simp: splash_live_def)
    show ?thesis using False l2 p by (simp add: advance_def Let_def live_clock)
  qed
qed

lemma live_step: "splash_live M s \<Longrightarrow> splash_live M (splash_step m M s e)"
  by (cases e) (simp_all add: live_advance live_onReady)

lemma live_run: "splash_live M s \<Longrightarrow> splash_live M (splash_run m M s evs)"
  unfolding splash_run_def by (induction evs arbitrary: s) (simp_all add: live_step)

lemma live_start: "splash_live M (splash_start v)"
  by (simp add: splash_live_def splash_start_def)


lemmas splash_defs = advance_def fire_at_def fire_min_def fire_max_def
  showWindowAndCloseSplashScreen_def Let_def cancel_def

lemma quiet_advance_before:
  "quiet_pending M v s \<Longrightarrow> t < M \<Longrightarrow> quiet_pending M v (advance m M t s)"
  by (auto simp: quiet_pending_def splash_defs)

lemma quiet_advance_fire:
  "quiet_pending M v s \<Longrightarrow> M \<le> t \<Longrightarrow> quiet_done M v (advance m M t s)"
  by (auto simp: quiet_pending_def quiet_done_def splash_defs max_def)

lemma quiet_advance_done:
  "quiet_done M v s \<Longrightarrow> quiet_done M v (advance m M t s)"
  by (auto simp: quiet_done_def splash_defs)

lemma quiet_run_done:
  "quiet_done M v s \<Longrightarrow> Ready \<notin> set evs \<Longrightarrow> quiet_done M v (splash_run m M s evs)"
proof (induction evs arbitrary: s)
  case Nil
  then show ?case by (simp add: splash_run_def)
next
  case (Cons e evs)
  then obtain t where e: "e = Tick t" by (cases e) auto
  have "quiet_done M v (advance m M t s)" using Cons.prems(1) by (rule quiet_advance_done)
  then have "quiet_done M v (splash_run m M (advance m M t s) evs)"
    using Cons.prems(2) by (intro Cons.IH) simp_all
  then show ?case using e by (simp add: splash_run_def)
qed

lemma quiet_run_pending:
  "quiet_pending M v s \<Longrightarrow> Ready \<notin> set evs \<Longrightarrow> Tick t \<in> set evs \<Longrightarrow> M \<le> t \<Longrightarrow>
   quiet_done M v (splash_run m M s evs)"
proof (induction evs arbitrary: s)
  case Nil
  then show ?case by simp
next
  case (Cons e evs)
  then obtain u where e: "e = Tick u" by (cases e) auto
  have nr: "Ready \<notin> set evs" using Cons.prems(2) by simp
  show ?case
  proof (cases "M \<le> u")
    case True
    have "quiet_done M v (advance m M u s)" using Cons.prems(1) True by (rule quiet_advance_fire)
    then have "quiet_done M v (splash_run m M (advance m M u s) evs)"
      using nr by (rule quiet_run_done)
    then show ?thesis using e by (simp add: splash_run_def)
  next
    case False
    then have p: "quiet_pending M v (advance m M u s)"
      using Cons.prems(1) by (intro quiet_advance_before) simp_all
    have "Tick t \<in> set evs" using Cons.prems(3,4) False e by auto
    then have "quiet_done M v (splash_run m M (advance m M u s) evs)"
      using p nr Cons.prems(4) by (intro Cons.IH)
    then show ?thesis using e by (simp add: splash_run_def)
  qed
qed

lemma quiet_start: "quiet_pending M v (splash_start v)"
  by (simp add: quiet_pending_def splash_start_def)

text \<open>
  What holds of every run. The splash never closes before the shorter of the two
  durations has elapsed, hence never before the minimum duration when that is not longer
  than the maximum; once the maximum duration (30000 ms by default) has elapsed it has
  closed, and when the target never reports ready it closes exactly then; after the
  splash has closed no timer is pending and the target window is visible, and the target
  is shown at most once.
\<close>

lemma splash_race:
  "(\<forall>c \<in> set (closed_at (configureAndShowSplashScreen opts v evs)).
       min (min_duration opts) (max_duration opts) \<le> c)
   \<and> (min_duration opts \<le> max_duration opts \<longrightarrow>
        (\<forall>c \<in> set (closed_at (configureAndShowSplashScreen opts v evs)). min_duration opts \<le> c))
   \<and> (Tick t \<in> set evs \<and> max_duration opts \<le> t \<longrightarrow>
        closed_at (configureAndShowSplashScreen opts v evs) \<noteq> []
      \<and> hd (closed_at (configureAndShowSplashScreen opts v evs)) \<le> max_duration opts)
   \<and> (Ready \<notin> set evs \<and> Tick t \<in> set evs \<and> max_duration opts \<le> t \<longrightarrow>
        closed_at (configureAndShowSplashScreen opts v evs) = [max_duration opts]
      \<and> shown_at (configureAndShowSplashScreen opts v evs) = (if v then [] else [max_duration opts]))
   \<and> (closed_at (configureAndShowSplashScreen opts v evs) \<noteq> [] \<longrightarrow>
        minTime (configureAndShowSplashScreen opts v evs) \<noteq> Pending
      \<and> maxTime (configureAndShowSplashScreen opts v evs) \<noteq> Pending
      \<and> visible (configureAndShowSplashScreen opts v evs))
   \<and> length (shown_at (configureAndShowSplashScreen opts v evs)) \<le> 1
   \<and> (maxDuration opts = None \<longrightarrow> max_duration opts = 30000)
   \<and> (minDuration opts = None \<longrightarrow> min_duration opts = 0)"
proof -
  let ?m = "min_duration opts" and ?M = "max_duration opts"
  let ?R = "configureAndShowSplashScreen opts v evs"
  have inv: "splash_inv ?m ?M ?R"
    unfolding configureAndShowSplashScreen_def using splash_inv_start by (rule splash_inv_run)
  have live: "splash_live ?M ?R"
    unfolding configureAndShowSplashScreen_def using live_start by (rule live_run)
  have c1: "\<forall>c \<in> set (closed_at ?R). min ?m ?M \<le> c"
    using inv by (simp add: splash_inv_def)
  have c2: "?m \<le> ?M \<longrightarrow> (\<forall>c \<in> set (closed_at ?R). ?m \<le> c)"
    using c1 by (auto simp: min_def)
  have c3: "Tick t \<in> set evs \<and> ?M \<le> t \<longrightarrow> closed_at ?R \<noteq> [] \<and> hd (closed_at ?R) \<le> ?M"
  proof
    assume a: "Tick t \<in> set evs \<and> ?M \<le> t"
    then have "maxTime ?R \<noteq> Pending"
      unfolding configureAndShowSplashScreen_def using fired_run_tick by blast
    then show "closed_at ?R \<noteq> [] \<and> hd (closed_at ?R) \<le> ?M"
      using live by (simp add: splash_live_def)
  qed
  have c4: "Ready \<notin> set evs \<and> Tick t \<in> set evs \<and> ?M \<le> t \<longrightarrow>
        closed_at ?R = [?M] \<and> shown_at ?R = (if v then [] else [?M])"
  proof
    assume a: "Ready \<notin> set evs \<and> Tick t \<in> set evs \<and> ?M \<le> t"
    then have "quiet_done ?M v ?R"
      unfolding configureAndShowSplashScreen_def using quiet_start quiet_run_pending by blast
    then show "closed_at ?R = [?M] \<and> shown_at ?R = (if v then [] else [?M])"
      by (simp add: quiet_done_def)
  qed
  have c5: "closed_at ?R \<noteq> [] \<longrightarrow> minTime ?R \<noteq> Pending \<and> maxTime ?R \<noteq> Pending \<and> visible ?R"
    using inv by (simp add: splash_inv_def)
  have c6: "length (shown_at ?R) \<le> 1"
    using inv by (simp add: splash_inv_def)
  have c7: "maxDuration opts = None \<longrightarrow> ?M = 30000" "minDuration opts = None \<longrightarrow> ?m = 0"
    by (simp_all add: max_duration_def min_duration_def)
  show ?thesis
    by (intro conjI c1 c2 c3 c4 c5 c6 c7)
qed

text \<open>
  C6. The transition is not single. With the default durations (no minimum, a maximum
  of 30000 ms) and a target window that reports ready after the maximum timer has
  fired, the listener of the application state is still registered and \<open>minTime\<close> is
  fulfilled, so the transition runs a second time and \<^verbatim>\<open>splashScreenWindow.close()\<close>
  is called again, on the splash that the first transition has closed.
\<close>

theorem splash_transition_runs_twice:
  "min_duration default_splash = 0 \<and> max_duration default_splash = 30000
   \<and> closed_at (configureAndShowSplashScreen default_splash False [Tick 30000]) = [30000]
   \<and> closed_at (configureAndShowSplashScreen default_splash False [Tick 30000, Ready]) = [30000, 30000]
   \<and> shown_at (configureAndShowSplashScreen default_splash False [Tick 30000, Ready]) = [30000]"
  by (simp add: configureAndShowSplashScreen_def default_splash_def min_duration_def
      max_duration_def splash_run_def splash_start_def onReady_def advance_def fire_at_def
      fire_min_def fire_max_def showWindowAndCloseSplashScreen_def Let_def cancel_def)

subsection \<open>The early window\<close>












subsection \<open>Opening a URL\<close>

lemma rendererOpenUrl_fields:
  "sent (snd (rendererOpenUrl wc url ipc)) = sent ipc @ [(wc, OPEN_URL url (fst (rendererOpenUrl wc url ipc)))]"
  "fst (rendererOpenUrl wc url ipc) = ''openUrl'' @ decimal (nextReplyChannel ipc)"
  "listeners (snd (rendererOpenUrl wc url ipc)) = add_mset (fst (rendererOpenUrl wc url ipc)) (listeners ipc)"
  "nextReplyChannel (snd (rendererOpenUrl wc url ipc)) = js_increment (nextReplyChannel ipc)"
  by (simp_all add: rendererOpenUrl_def Let_def)

lemma replied_fields:
  "sent (rendererOpenUrl_replied ch ipc) = sent ipc"
  "nextReplyChannel (rendererOpenUrl_replied ch ipc) = nextReplyChannel ipc"
  "listeners (rendererOpenUrl_replied ch ipc) = listeners ipc - {#ch#}"
  by (simp_all add: rendererOpenUrl_replied_def)

lemma deliveries_send:
  "deliveries (snd (rendererOpenUrl wc url ipc)) = deliveries ipc @ [wc]"
  by (simp add: deliveries_def rendererOpenUrl_def Let_def)

lemma deliveries_replied: "deliveries (rendererOpenUrl_replied ch ipc) = deliveries ipc"
  by (simp add: deliveries_def rendererOpenUrl_replied_def)

lemma next_registered_None:
  "next_registered ws ids i = None \<Longrightarrow> filter (\<lambda>w. ws w \<noteq> None) ids = []"
  by (induction ids arbitrary: i) (auto split: option.splits)

lemma next_registered_Some:
  "next_registered ws ids i = Some (w, j) \<Longrightarrow>
   i < j \<and> filter (\<lambda>w. ws w \<noteq> None) ids = w # filter (\<lambda>w. ws w \<noteq> None) (drop (j - i) ids)"
proof (induction ids arbitrary: i)
  case Nil
  then show ?case by simp
next
  case (Cons a ids)
  show ?case
  proof (cases "ws a")
    case None
    then have "next_registered ws ids (Suc i) = Some (w, j)" using Cons.prems by simp
    then have ih: "Suc i < j \<and> filter (\<lambda>w. ws w \<noteq> None) ids = w # filter (\<lambda>w. ws w \<noteq> None) (drop (j - Suc i) ids)"
      by (rule Cons.IH)
    then have "j - i = Suc (j - Suc i)" by arith
    then show ?thesis using ih None by simp
  next
    case (Some window)
    then show ?thesis using Cons.prems by auto
  qed
qed

lemma openUrl_continue_app: "the_app (openUrl_continue url c) = the_app c"
  by (simp add: openUrl_continue_def split_beta Let_def split: option.split)

lemma openUrl_continue_none:
  assumes "filter (\<lambda>w. windows (the_app c) w \<noteq> None) (drop (nextIndex c) (activeWindowStack (the_app c))) = []"
  shows "status (openUrl_continue url c) = Finished \<and> the_ipc (openUrl_continue url c) = the_ipc c"
proof (cases "next_registered (windows (the_app c)) (drop (nextIndex c) (activeWindowStack (the_app c))) (nextIndex c)")
  case None
  then show ?thesis by (simp add: openUrl_continue_def)
next
  case (Some p)
  obtain w j where p: "p = (w, j)" by (cases p)
  have False using next_registered_Some[OF Some[unfolded p]] assms by simp
  then show ?thesis ..
qed

lemma openUrl_continue_some:
  assumes "filter (\<lambda>w. windows (the_app c) w \<noteq> None) (drop (nextIndex c) (activeWindowStack (the_app c))) = w # rest"
  shows "status (openUrl_continue url c) = Asking w (fst (rendererOpenUrl w url (the_ipc c)))
       \<and> the_ipc (openUrl_continue url c) = snd (rendererOpenUrl w url (the_ipc c))
       \<and> filter (\<lambda>w. windows (the_app c) w \<noteq> None)
            (drop (nextIndex (openUrl_continue url c)) (activeWindowStack (the_app c))) = rest"
proof (cases "next_registered (windows (the_app c)) (drop (nextIndex c) (activeWindowStack (the_app c))) (nextIndex c)")
  case None
  have False using next_registered_None[OF None] assms by simp
  then show ?thesis ..
next
  case (Some p)
  obtain v j where p: "p = (v, j)" by (cases p)
  note n = next_registered_Some[OF Some[unfolded p]]
  have v: "v = w" using n assms by simp
  have r: "filter (\<lambda>w. windows (the_app c) w \<noteq> None)
      (drop (j - nextIndex c) (drop (nextIndex c) (activeWindowStack (the_app c)))) = rest"
    using n assms by simp
  have "j - nextIndex c + nextIndex c = j" using n by simp
  then have r': "filter (\<lambda>w. windows (the_app c) w \<noteq> None) (drop j (activeWindowStack (the_app c))) = rest"
    using r by simp
  show ?thesis using Some p v r'
    by (simp add: openUrl_continue_def split_beta Let_def)
qed

lemma openUrl_run_Cons:
  "openUrl_run env url c (ev # evs) = openUrl_run env url (openUrl_step env url c ev) evs"
  by (simp add: openUrl_run_def)

lemma openUrl_run_finished:
  "status c = Finished \<Longrightarrow> openUrl_run env url c (map Answer as) = c"
  by (induction as) (simp_all add: openUrl_run_def)

lemma openUrl_run_asking:
  assumes "status c = Asking w ch"
    and "filter (\<lambda>w. windows (the_app c) w \<noteq> None) (drop (nextIndex c) (activeWindowStack (the_app c))) = rest"
  shows "deliveries (the_ipc (openUrl_run env url c (map Answer as)))
       = deliveries (the_ipc c) @ take (length (takeWhile (\<lambda>a. \<not> a) as)) rest"
  using assms
proof (induction as arbitrary: c w ch rest)
  case Nil
  then show ?case by (simp add: openUrl_run_def)
next
  case (Cons a as)
  let ?c1 = "c\<lparr>the_ipc := rendererOpenUrl_replied ch (the_ipc c)\<rparr>"
  show ?case
  proof (cases a)
    case True
    have "openUrl_step env url c (Answer a) = ?c1\<lparr>status := Finished\<rparr>"
      using True Cons.prems(1) by (simp add: Let_def)
    then have "openUrl_run env url c (map Answer (a # as)) = ?c1\<lparr>status := Finished\<rparr>"
      using openUrl_run_finished[of "?c1\<lparr>status := Finished\<rparr>" env url as]
      by (simp add: openUrl_run_Cons)
    then show ?thesis using True by (simp add: deliveries_replied)
  next
    case False
    have step: "openUrl_step env url c (Answer a) = openUrl_continue url ?c1"
      using False Cons.prems(1) by (simp add: Let_def)
    have f1: "filter (\<lambda>w. windows (the_app ?c1) w \<noteq> None)
        (drop (nextIndex ?c1) (activeWindowStack (the_app ?c1))) = rest"
      using Cons.prems(2) by simp
    show ?thesis
    proof (cases rest)
      case Nil
      note n = openUrl_continue_none[OF f1[unfolded Nil], of url]
      have "openUrl_run env url c (map Answer (a # as)) = openUrl_continue url ?c1"
        using step n openUrl_run_finished[of "openUrl_continue url ?c1" env url as]
        by (simp add: openUrl_run_Cons)
      then show ?thesis using n Nil by (simp add: deliveries_replied)
    next
      case (Cons v rest')
      note s = openUrl_continue_some[OF f1[unfolded Cons], of url]
      let ?c2 = "openUrl_continue url ?c1"
      have st: "status ?c2 = Asking v (fst (rendererOpenUrl v url (the_ipc ?c1)))" using s by simp
      have fl: "filter (\<lambda>w. windows (the_app ?c2) w \<noteq> None)
           (drop (nextIndex ?c2) (activeWindowStack (the_app ?c2))) = rest'"
        using s by (simp add: openUrl_continue_app)
      have "deliveries (the_ipc (openUrl_run env url ?c2 (map Answer as)))
          = deliveries (the_ipc ?c2) @ take (length (takeWhile (\<lambda>a. \<not> a) as)) rest'"
        using st fl by (rule Cons.IH)
      moreover have "deliveries (the_ipc ?c2) = deliveries (the_ipc c) @ [v]"
        using s by (simp add: deliveries_send deliveries_replied)
      ultimately show ?thesis using False Cons step
        by (simp add: openUrl_run_Cons)
    qed
  qed
qed

text \<open>
  While no window is created, focused or closed during the call, the loop does what its
  documentation says: the registered windows of the activation stack are sent the URL in
  order, one message each, up to and including the first that accepts.
\<close>

lemma openUrl_undisturbed:
  "deliveries (the_ipc (openUrl_run env url (openUrl app url ipc) (map Answer as)))
     = deliveries ipc @ take (Suc (length (takeWhile (\<lambda>a. \<not> a) as))) (registered app)"
proof (cases "registered app")
  case Nil
  let ?c0 = "\<lparr>the_app = app, the_ipc = ipc, nextIndex = 0, status = Finished\<rparr>"
  have "filter (\<lambda>w. windows (the_app ?c0) w \<noteq> None) (drop (nextIndex ?c0) (activeWindowStack (the_app ?c0))) = []"
    using Nil by (simp add: registered_def)
  note n = openUrl_continue_none[OF this, of url]
  then show ?thesis using Nil openUrl_run_finished[of "openUrl app url ipc" env url as]
    by (simp add: openUrl_def)
next
  case (Cons w rest)
  let ?c0 = "\<lparr>the_app = app, the_ipc = ipc, nextIndex = 0, status = Finished\<rparr>"
  have "filter (\<lambda>w. windows (the_app ?c0) w \<noteq> None) (drop (nextIndex ?c0) (activeWindowStack (the_app ?c0))) = w # rest"
    using Cons by (simp add: registered_def)
  note s = openUrl_continue_some[OF this, of url]
  have st: "status (openUrl app url ipc) = Asking w (fst (rendererOpenUrl w url ipc))"
    using s by (simp add: openUrl_def)
  have fl: "filter (\<lambda>w. windows (the_app (openUrl app url ipc)) w \<noteq> None)
      (drop (nextIndex (openUrl app url ipc)) (activeWindowStack (the_app (openUrl app url ipc)))) = rest"
    using s by (simp add: openUrl_def openUrl_continue_app)
  have "deliveries (the_ipc (openUrl app url ipc)) = deliveries ipc @ [w]"
    using s by (simp add: openUrl_def deliveries_send)
  then show ?thesis using openUrl_run_asking[OF st fl, of env url as] Cons by simp
qed

lemma two_windows_fields:
  "activeWindowStack two_windows = [1, 2]"
  "windows two_windows 1 \<noteq> None" "windows two_windows 2 \<noteq> None"
  by (simp_all add: two_windows_def run_events_def initialApplication_def createWindow_def
      onFocus_def inputs_for_def avoidOverlap_def Let_def)

lemma openUrl_two_undisturbed:
  "deliveries (the_ipc (openUrl_run plain_env ''theia://open'' (openUrl two_windows ''theia://open'' fresh_ipc)
       [Answer False, Answer True])) = [1, 2]"
  using openUrl_undisturbed[of plain_env "''theia://open''" two_windows fresh_ipc "[False, True]"]
    two_windows_fields
  by (simp add: registered_def deliveries_def fresh_ipc_def)

text \<open>
  C7. The loop does not ask each window in turn when the stack changes while it waits.
  With the stack \<open>1, 2\<close>, window 2 is focused while window 1 is asked; the stack is
  then \<open>2, 1\<close> and the iterator, at position 1, finds window 1 again. Window 1
  rejects twice and is sent the URL twice, window 2 is never sent it, and the loop ends.
\<close>

theorem openUrl_asks_first_window_twice:
  "activeWindowStack two_windows = [1, 2]
   \<and> windows two_windows 1 \<noteq> None \<and> windows two_windows 2 \<noteq> None
   \<and> deliveries (the_ipc (openUrl_run plain_env ''theia://open''
        (openUrl two_windows ''theia://open'' fresh_ipc)
        [WindowEvent (Focus 2), Answer False, Answer False])) = [1, 1]
   \<and> status (openUrl_run plain_env ''theia://open''
        (openUrl two_windows ''theia://open'' fresh_ipc)
        [WindowEvent (Focus 2), Answer False, Answer False]) = Finished
   \<and> registered (the_app (openUrl_run plain_env ''theia://open''
        (openUrl two_windows ''theia://open'' fresh_ipc)
        [WindowEvent (Focus 2), Answer False, Answer False])) = [2, 1]"
proof -
  obtain w1 w2 where w: "windows two_windows 1 = Some w1" "windows two_windows 2 = Some w2"
    using two_windows_fields by blast
  have w': "windows two_windows (Suc 0) = Some w1" using w by simp
  have s: "activeWindowStack two_windows = [Suc 0, 2]" using two_windows_fields by simp
  have d: "deliveries fresh_ipc = []" by (simp add: deliveries_def fresh_ipc_def)
  show ?thesis
    using two_windows_fields
    by (simp add: openUrl_run_def openUrl_def openUrl_continue_def w w' s d onFocus_def
        split_beta Let_def deliveries_send deliveries_replied registered_def)
qed

end
